theory Spec2Isabelle
  imports Complex_Main "HOL-Library.Word"
begin

section \<open>Python values, exceptions and the collaborators of the filter\<close>

text \<open>
  The exceptions that the methods of \<open>bloomfilter.py\<close> can meet. Every method body is wrapped
  in \<open>try: ... except Exception as e: logger.log(str(e)); sys.exit(1)\<close>, so an exception
  raised inside leaves the method as \<open>SystemExit\<close>. \<open>SystemExit\<close> derives from
  \<open>BaseException\<close>, not from \<open>Exception\<close>: an enclosing \<open>except Exception\<close> lets it through.
\<close>

datatype exn =
    ValueError | ZeroDivisionError | IndexError | AttributeError | TypeError
  | UnicodeEncodeError | OverflowError | MemoryError | SystemExit

definition is_Exception :: "exn \<Rightarrow> bool" where
  "is_Exception e = (e \<noteq> SystemExit)"

text \<open>
  The handler \<open>except Exception as e: logger.log(str(e)); sys.exit(1)\<close>: what leaves the
  \<open>try\<close> statement when \<open>e\<close> was raised inside it.
\<close>

definition exit_on_exception :: "exn \<Rightarrow> exn" where
  "exit_on_exception e = (if is_Exception e then SystemExit else e)"

text \<open>
  The items handed to \<open>add\<close> and \<open>contain\<close>: \<open>str\<close> objects (code points below 256, one
  \<open>char\<close> each), \<open>int\<close> objects and \<open>None\<close>.
\<close>

datatype item = PyStr string | PyInt int | PyNone

definition digit_char :: "nat \<Rightarrow> char" where
  "digit_char d = char_of (48 + d)"

fun str_nat :: "nat \<Rightarrow> string" where
  "str_nat n = (if n < 10 then [digit_char n] else str_nat (n div 10) @ [digit_char (n mod 10)])"

declare str_nat.simps [simp del]



fun py_str :: "item \<Rightarrow> string" where
  "py_str (PyStr s) = s"
| "py_str (PyInt i) = (if i < 0 then CHR ''-'' # str_nat (nat (- i)) else str_nat (nat i))"
| "py_str PyNone = ''None''"

text \<open>
  \<open>str.lower()\<close> on code points below 256: the ASCII capitals and the Latin-1 capitals
  (U+00C0 to U+00DE without the multiplication sign U+00D7) move up by 32.
\<close>

definition lower_char :: "char \<Rightarrow> char" where
  "lower_char c =
     (let n = (of_char c :: nat)
      in if (65 \<le> n \<and> n \<le> 90) \<or> (192 \<le> n \<and> n \<le> 222 \<and> n \<noteq> 215)
         then char_of (n + 32) else c)"

text \<open>\<open>item.lower()\<close>: \<open>int\<close> and \<open>None\<close> have no such attribute.\<close>

fun item_lower :: "item \<Rightarrow> exn + item" where
  "item_lower (PyStr s) = Inr (PyStr (map lower_char s))"
| "item_lower (PyInt i) = Inl AttributeError"
| "item_lower PyNone = Inl AttributeError"

text \<open>
  \<open>mmh3.hash64\<close> is imported, not part of the repository: it is a parameter of the model.
  It returns two 64-bit values, read as signed Python integers, or raises.
\<close>

type_synonym hash64 = "item \<Rightarrow> exn + (64 word \<times> 64 word)"

text \<open>\<open>a % b\<close> on Python integers: the sign follows the divisor, as HOL's \<open>mod\<close> on \<open>int\<close>.\<close>

definition py_mod :: "int \<Rightarrow> int \<Rightarrow> exn + int" where
  "py_mod a b = (if b = 0 then Inl ZeroDivisionError else Inr (a mod b))"

section \<open>The platform: doubles, the C library, memory\<close>

text \<open>
  Python floats are the doubles of the machine, \<open>math.log\<close> and \<open>pow\<close> are the functions of
  its C library, and \<open>bitarray\<close> takes its storage from the allocator. None of these is part
  of the repository: they are a parameter of the model. A finite double is the real number it
  denotes.
  \<^item> \<open>fl_round x\<close> is the double nearest to the real \<open>x\<close>, the exponent taken as unbounded
    above;
  \<^item> \<open>fl_max\<close> is the largest finite double;
  \<^item> \<open>fl_log\<close> and \<open>fl_pow\<close> are the library's \<open>log\<close> and \<open>pow\<close>;
  \<^item> \<open>fresh_bit i\<close> is bit \<open>i\<close> of newly allocated storage, which \<open>bitarray(n)\<close> leaves as
    it finds it;
  \<^item> \<open>max_bits\<close> is the longest bit array the allocator grants.
\<close>

record platform =
  fl_round :: "real \<Rightarrow> real"
  fl_max :: real
  fl_log :: "real \<Rightarrow> real"
  fl_pow :: "real \<Rightarrow> real \<Rightarrow> real"
  fresh_bit :: "nat \<Rightarrow> bool"
  max_bits :: int

text \<open>Sequencing of steps that may raise: the first exception ends the evaluation.\<close>

definition exn_bind :: "exn + 'a \<Rightarrow> ('a \<Rightarrow> exn + 'b) \<Rightarrow> exn + 'b" where
  "exn_bind m f = (case m of Inl e \<Rightarrow> Inl e | Inr a \<Rightarrow> f a)"

text \<open>
  A result beyond the largest double. The conversion of an \<open>int\<close>, the division of two
  \<open>int\<close>s and \<open>pow\<close> raise \<open>OverflowError\<close> there. A product or a quotient of floats becomes
  an infinity instead and raises nothing; in the two expressions of this class the infinity is
  at most divided by a finite number and then handed to \<open>ceil\<close> or \<open>round\<close>, which raise
  \<open>OverflowError\<close> on it. The model raises at once: in both cases the handler around the
  expression is entered with an exception.
\<close>

definition fl_result :: "platform \<Rightarrow> real \<Rightarrow> exn + real" where
  "fl_result P r = (if fl_max P < \<bar>r\<bar> then Inl OverflowError else Inr r)"

text \<open>\<open>int\<close> to \<open>float\<close>, as in \<open>items * log(prob)\<close>.\<close>

definition float_of_int :: "platform \<Rightarrow> int \<Rightarrow> exn + real" where
  "float_of_int P i = fl_result P (fl_round P (of_int i))"

text \<open>\<open>x * y\<close> and \<open>x / y\<close> on floats.\<close>

definition float_mul :: "platform \<Rightarrow> real \<Rightarrow> real \<Rightarrow> exn + real" where
  "float_mul P x y = fl_result P (fl_round P (x * y))"

definition float_div :: "platform \<Rightarrow> real \<Rightarrow> real \<Rightarrow> exn + real" where
  "float_div P x y =
     (if y = 0 then Inl ZeroDivisionError else fl_result P (fl_round P (x / y)))"

text \<open>\<open>a / b\<close> on two \<open>int\<close>s: the quotient, rounded once.\<close>

definition int_truediv :: "platform \<Rightarrow> int \<Rightarrow> int \<Rightarrow> exn + real" where
  "int_truediv P a b =
     (if b = 0 then Inl ZeroDivisionError
      else fl_result P (fl_round P (of_int a / of_int b)))"

text \<open>\<open>math.log(x)\<close> raises \<open>ValueError\<close> unless \<open>x\<close> is positive; \<open>pow(x, y)\<close>.\<close>

definition math_log :: "platform \<Rightarrow> real \<Rightarrow> exn + real" where
  "math_log P x = (if x \<le> 0 then Inl ValueError else Inr (fl_log P x))"

definition float_pow :: "platform \<Rightarrow> real \<Rightarrow> real \<Rightarrow> exn + real" where
  "float_pow P x y = fl_result P (fl_pow P x y)"

text \<open>
  The \<open>bitarray\<close> object as a list of booleans. \<open>bitarray(n)\<close> raises \<open>OverflowError\<close> for a
  length that is no machine index, \<open>ValueError\<close> for a negative one and \<open>MemoryError\<close> for
  one the allocator refuses; otherwise it has \<open>n\<close> bits with the content of the fresh
  storage. \<open>setall\<close> overwrites every bit. An index is taken from the end when negative and
  raises \<open>IndexError\<close> out of range.
\<close>

definition bitarray_new :: "platform \<Rightarrow> int \<Rightarrow> exn + bool list" where
  "bitarray_new P n =
     (if n < - (2 ^ 63) \<or> 2 ^ 63 \<le> n then Inl OverflowError
      else if n < 0 then Inl ValueError
      else if max_bits P < n then Inl MemoryError
      else Inr (map (fresh_bit P) [0..<nat n]))"

definition setall :: "bool list \<Rightarrow> bool \<Rightarrow> bool list" where
  "setall bits v = replicate (length bits) v"

definition py_index :: "nat \<Rightarrow> int \<Rightarrow> exn + nat" where
  "py_index n i =
     (let j = (if i < 0 then i + int n else i)
      in if 0 \<le> j \<and> j < int n then Inr (nat j) else Inl IndexError)"

definition bitarray_setitem :: "bool list \<Rightarrow> int \<Rightarrow> bool \<Rightarrow> exn + bool list" where
  "bitarray_setitem bits i v =
     (case py_index (length bits) i of Inl e \<Rightarrow> Inl e | Inr j \<Rightarrow> Inr (bits[j := v]))"

definition bitarray_getitem :: "bool list \<Rightarrow> int \<Rightarrow> exn + bool" where
  "bitarray_getitem bits i =
     (case py_index (length bits) i of Inl e \<Rightarrow> Inl e | Inr j \<Rightarrow> Inr (bits ! j))"

text \<open>
  \<open>round(x)\<close> of a float: the nearest integer, a tie going to the even one.
\<close>

definition py_round :: "real \<Rightarrow> int" where
  "py_round x =
     (let f = \<lfloor>x\<rfloor>; d = x - of_int f
      in if d < 1 / 2 then f else if 1 / 2 < d then f + 1 else if even f then f else f + 1)"

section \<open>The class \<open>BloomFilter\<close>\<close>

record BloomFilter =
  items_count :: int
  probability :: real
  case_sensitive :: bool
  counter :: int
  delete_threshold :: bool
  filter_size :: int
  hash_count :: int
  bloom_bitarray :: "bool list"

subsection \<open>Capacity planning\<close>

text \<open>
  The divisor \<open>log(1 / pow(2, log(2)))\<close> of \<open>get_filter_size\<close>, evaluated from the inside:
  \<open>log(2)\<close>, \<open>pow\<close>, the division of 1, \<open>log\<close>.
\<close>

definition size_divisor :: "platform \<Rightarrow> exn + real" where
  "size_divisor P =
     exn_bind (math_log P 2) (\<lambda>l2.
     exn_bind (float_pow P 2 l2) (\<lambda>pw.
     exn_bind (float_div P 1 pw) (\<lambda>inv.
     math_log P inv)))"

text \<open>
  \<open>ceil((items * log(prob)) / log(1 / pow(2, log(2))))\<close> for an \<open>int\<close> and a finite float,
  in the order of evaluation: \<open>log(prob)\<close>, the conversion of \<open>items\<close> and the product, the
  divisor, the quotient, \<open>ceil\<close>.
\<close>

definition size_expr :: "platform \<Rightarrow> int \<Rightarrow> real \<Rightarrow> exn + int" where
  "size_expr P items prob =
     exn_bind (math_log P prob) (\<lambda>l.
     exn_bind (float_of_int P items) (\<lambda>n.
     exn_bind (float_mul P n l) (\<lambda>num.
     exn_bind (size_divisor P) (\<lambda>den.
     exn_bind (float_div P num den) (\<lambda>q.
     Inr \<lceil>q\<rceil>)))))"

text \<open>\<open>get_filter_size\<close>: the expression inside \<open>try\<close>, any exception ending in \<open>sys.exit(1)\<close>.\<close>

definition get_filter_size :: "platform \<Rightarrow> int \<Rightarrow> real \<Rightarrow> exn + int" where
  "get_filter_size P items prob =
     (case size_expr P items prob of
        Inl e \<Rightarrow> Inl (exit_on_exception e)
      | Inr fsize \<Rightarrow> Inr fsize)"

text \<open>
  The float \<open>(size / items) * log(2)\<close> of \<open>get_hash_count\<close>: the division of the two
  \<open>int\<close>s, \<open>log(2)\<close>, the product.
\<close>

definition hash_count_expr :: "platform \<Rightarrow> int \<Rightarrow> int \<Rightarrow> exn + real" where
  "hash_count_expr P items fsize =
     exn_bind (int_truediv P fsize items) (\<lambda>q.
     exn_bind (math_log P 2) (\<lambda>l2.
     float_mul P q l2))"

text \<open>\<open>get_hash_count\<close>: \<open>round\<close> of that float, inside the same kind of \<open>try\<close>.\<close>

definition get_hash_count :: "platform \<Rightarrow> int \<Rightarrow> int \<Rightarrow> exn + int" where
  "get_hash_count P items fsize =
     (case hash_count_expr P items fsize of
        Inl e \<Rightarrow> Inl (exit_on_exception e)
      | Inr x \<Rightarrow> Inr (py_round x))"

text \<open>
  \<open>__init__\<close>: no \<open>try\<close> of its own, so the \<open>SystemExit\<close> of the two class methods and the
  exceptions of \<open>bitarray\<close> reach the caller as they are. The bit array is created and then
  zeroed by \<open>setall(0)\<close>.
\<close>

definition BloomFilter_init :: "platform \<Rightarrow> int \<Rightarrow> real \<Rightarrow> bool \<Rightarrow> exn + BloomFilter" where
  "BloomFilter_init P items prob case_flag =
     (case get_filter_size P items prob of
        Inl e \<Rightarrow> Inl e
      | Inr fsize \<Rightarrow>
          (case get_hash_count P items fsize of
             Inl e \<Rightarrow> Inl e
           | Inr hc \<Rightarrow>
               (case bitarray_new P fsize of
                  Inl e \<Rightarrow> Inl e
                | Inr bits \<Rightarrow>
                    Inr \<lparr>items_count = items, probability = prob, case_sensitive = case_flag,
                         counter = 0, delete_threshold = False, filter_size = fsize,
                         hash_count = hc, bloom_bitarray = setall bits False\<rparr>)))"

subsection \<open>Hash derivation\<close>

text \<open>
  \<open>get_hash\<close>, first half: the value that reaches \<open>mmh3.hash64\<close>, or the exception raised on
  the way. The item is lower-cased when the flag is \<open>True\<close>.
\<close>

definition hash_input :: "item \<Rightarrow> bool \<Rightarrow> exn + item" where
  "hash_input it case_flag = (if case_flag then item_lower it else Inr it)"

definition get_hash :: "hash64 \<Rightarrow> item \<Rightarrow> bool \<Rightarrow> exn + (int \<times> int)" where
  "get_hash mmh3_hash64 it case_flag =
     (case hash_input it case_flag of
        Inl e \<Rightarrow> Inl (exit_on_exception e)
      | Inr it' \<Rightarrow>
          (case mmh3_hash64 it' of
             Inl e \<Rightarrow> Inl (exit_on_exception e)
           | Inr (w1, w2) \<Rightarrow> Inr (sint w1, sint w2)))"

subsection \<open>Insertion\<close>

text \<open>
  The loop of \<open>add\<close> over \<open>range(self.hash_count)\<close>, with \<open>k\<close> rounds left. It reads
  \<open>self.filter_size\<close>, writes \<open>self.bloom_bitarray\<close> and stops at the first exception, the bits
  written so far staying written.
\<close>

fun add_loop :: "int \<Rightarrow> bool list \<Rightarrow> int \<Rightarrow> int \<Rightarrow> nat \<Rightarrow> exn option \<times> bool list" where
  "add_loop fsize bits current_hash hash_val2 0 = (None, bits)"
| "add_loop fsize bits current_hash hash_val2 (Suc k) =
     (case py_mod current_hash fsize of
        Inl e \<Rightarrow> (Some e, bits)
      | Inr position \<Rightarrow>
          (case bitarray_setitem bits position True of
             Inl e \<Rightarrow> (Some e, bits)
           | Inr bits' \<Rightarrow> add_loop fsize bits' (current_hash + hash_val2) hash_val2 k))"

text \<open>
  The first statement of \<open>add\<close>: \<open>self.get_hash(str(item), self.case_sensitive)\<close>.
\<close>

definition add_hash_vals :: "hash64 \<Rightarrow> BloomFilter \<Rightarrow> item \<Rightarrow> exn + (int \<times> int)" where
  "add_hash_vals mmh3_hash64 self it =
     get_hash mmh3_hash64 (PyStr (py_str it)) (case_sensitive self)"

text \<open>
  A method that mutates the filter returns the exception it raised, if any, and the filter
  as it is left.
\<close>

definition add :: "hash64 \<Rightarrow> BloomFilter \<Rightarrow> item \<Rightarrow> exn option \<times> BloomFilter" where
  "add mmh3_hash64 self it =
     (case add_hash_vals mmh3_hash64 self it of
        Inl e \<Rightarrow> (Some e, self)
      | Inr (hash_val1, hash_val2) \<Rightarrow>
          (case add_loop (filter_size self) (bloom_bitarray self) hash_val1 hash_val2
                  (nat (hash_count self)) of
             (Some e, bits) \<Rightarrow> (Some (exit_on_exception e), self\<lparr>bloom_bitarray := bits\<rparr>)
           | (None, bits) \<Rightarrow>
               (None, self\<lparr>bloom_bitarray := bits, counter := counter self + 1\<rparr>)))"

fun bulk_add :: "hash64 \<Rightarrow> BloomFilter \<Rightarrow> item list \<Rightarrow> exn option \<times> BloomFilter" where
  "bulk_add mmh3_hash64 self [] = (None, self)"
| "bulk_add mmh3_hash64 self (it # items) =
     (case add mmh3_hash64 self it of
        (Some e, self') \<Rightarrow> (Some (exit_on_exception e), self')
      | (None, self') \<Rightarrow> bulk_add mmh3_hash64 self' items)"

subsection \<open>Membership query\<close>

fun contain_loop :: "int \<Rightarrow> bool list \<Rightarrow> int \<Rightarrow> int \<Rightarrow> nat \<Rightarrow> exn + bool" where
  "contain_loop fsize bits current_hash hash_val2 0 = Inr True"
| "contain_loop fsize bits current_hash hash_val2 (Suc k) =
     (case py_mod current_hash fsize of
        Inl e \<Rightarrow> Inl e
      | Inr position \<Rightarrow>
          (case bitarray_getitem bits position of
             Inl e \<Rightarrow> Inl e
           | Inr b \<Rightarrow>
               if \<not> b then Inr False
               else contain_loop fsize bits (current_hash + hash_val2) hash_val2 k))"

text \<open>
  The first statement of \<open>contain\<close>: \<open>self.get_hash(item, self.case_sensitive)\<close>, the item
  as it was passed.
\<close>

definition contain_hash_vals :: "hash64 \<Rightarrow> BloomFilter \<Rightarrow> item \<Rightarrow> exn + (int \<times> int)" where
  "contain_hash_vals mmh3_hash64 self it = get_hash mmh3_hash64 it (case_sensitive self)"

text \<open>\<open>contain\<close> returns its result, or the exception, and the filter as it is left.\<close>

definition contain :: "hash64 \<Rightarrow> BloomFilter \<Rightarrow> item \<Rightarrow> (exn + bool) \<times> BloomFilter" where
  "contain mmh3_hash64 self it =
     (case contain_hash_vals mmh3_hash64 self it of
        Inl e \<Rightarrow> (Inl e, self)
      | Inr (hash_val1, hash_val2) \<Rightarrow>
          (case contain_loop (filter_size self) (bloom_bitarray self) hash_val1 hash_val2
                  (nat (hash_count self)) of
             Inl e \<Rightarrow> (Inl (exit_on_exception e), self)
           | Inr b \<Rightarrow> (Inr b, self)))"

section \<open>Notions used by the properties\<close>

text \<open>
  The invariant of a constructed filter: the bit array has \<open>filter_size\<close> bits, and a filter
  of size 0 has no hash round (\<open>round(0 / items * log(2))\<close> is 0).
\<close>

definition wf_filter :: "BloomFilter \<Rightarrow> bool" where
  "wf_filter f =
     (length (bloom_bitarray f) = nat (filter_size f) \<and>
      (0 < filter_size f \<or> (filter_size f = 0 \<and> hash_count f \<le> 0)))"

text \<open>Bit \<open>i\<close> of a bit array is there and is 1.\<close>

definition bit_set :: "bool list \<Rightarrow> nat \<Rightarrow> bool" where
  "bit_set bits i = (i < length bits \<and> bits ! i)"

text \<open>The position of round \<open>i\<close>: \<open>(h1 + i * h2) % filter_size\<close>.\<close>

definition probe :: "int \<Rightarrow> int \<Rightarrow> int \<Rightarrow> nat \<Rightarrow> nat" where
  "probe fsize h1 h2 i = nat ((h1 + int i * h2) mod fsize)"

text \<open>
  Bulk insertion in the words of the specification: Insert once per item, in sequence order;
  an error ends the batch where it occurs and nothing is rolled back.
\<close>

definition insert_each :: "hash64 \<Rightarrow> BloomFilter \<Rightarrow> item list \<Rightarrow> exn option \<times> BloomFilter" where
  "insert_each mmh3_hash64 self items =
     foldl (\<lambda>(r, f) it. if r = None then add mmh3_hash64 f it else (r, f)) (None, self) items"

text \<open>
  A stand-in for \<open>mmh3.hash64\<close> on which the methods can be run: like the library it raises
  \<open>TypeError\<close> on an \<open>int\<close> or \<open>None\<close>; on a string it returns the sum of the code points
  and the length plus one.
\<close>

fun stub_hash64 :: hash64 where
  "stub_hash64 (PyStr s) = Inr (of_nat (sum_list (map of_char s)), of_nat (length s) + 1)"
| "stub_hash64 (PyInt i) = Inl TypeError"
| "stub_hash64 PyNone = Inl TypeError"

text \<open>
  A second stand-in, which raises \<open>UnicodeEncodeError\<close> on a string with a code point that
  is not ASCII: a hash primitive that cannot process every input.
\<close>

fun ascii_hash64 :: hash64 where
  "ascii_hash64 (PyStr s) =
     (if list_ex (\<lambda>c. 128 \<le> (of_char c :: nat)) s then Inl UnicodeEncodeError
      else stub_hash64 (PyStr s))"
| "ascii_hash64 (PyInt i) = Inl TypeError"
| "ascii_hash64 PyNone = Inl TypeError"

text \<open>The filter that \<open>BloomFilter(1, 0.125, case)\<close> constructs: 5 bits, 3 hash rounds.\<close>

definition example_filter :: "bool \<Rightarrow> BloomFilter" where
  "example_filter case_flag =
     \<lparr>items_count = 1, probability = 1 / 8, case_sensitive = case_flag, counter = 0,
      delete_threshold = False, filter_size = 5, hash_count = 3,
      bloom_bitarray = [False, False, False, False, False]\<rparr>"

text \<open>
  What the properties of the capacity planner assume of the platform, each true of IEEE 754
  doubles with a C library whose \<open>log\<close> and \<open>pow\<close> are accurate to a few units in the last
  place: rounding keeps 0 and the order, and is accurate to half a unit in the last place on
  a real of normal magnitude; \<open>log\<close> and \<open>pow(2, y)\<close> for \<open>0 \<le> y \<le> 1\<close> are accurate to a
  relative error of \<open>1 / 2 ^ 50\<close>; the largest double is at least \<open>2 ^ 1023\<close>.
\<close>

definition ieee_double :: "platform \<Rightarrow> bool" where
  "ieee_double P =
     (fl_round P 0 = 0 \<and>
      (\<forall>x y. x \<le> y \<longrightarrow> fl_round P x \<le> fl_round P y) \<and>
      (\<forall>x. 1 / 2 ^ 1022 \<le> \<bar>x\<bar> \<longrightarrow> \<bar>fl_round P x - x\<bar> \<le> \<bar>x\<bar> / 2 ^ 53) \<and>
      (\<forall>x. 0 < x \<longrightarrow> \<bar>fl_log P x - ln x\<bar> \<le> \<bar>ln x\<bar> / 2 ^ 50) \<and>
      (\<forall>y. 0 \<le> y \<and> y \<le> 1 \<longrightarrow> \<bar>fl_pow P 2 y - 2 powr y\<bar> \<le> 2 powr y / 2 ^ 50) \<and>
      2 ^ 1023 \<le> fl_max P)"

text \<open>
  A platform on which the capacity planner can be evaluated: the arithmetic is exact, fresh
  storage is all ones, and \<open>2 ^ 40\<close> bits can be allocated.
\<close>

definition exact_platform :: platform where
  "exact_platform =
     \<lparr>fl_round = (\<lambda>x. x), fl_max = 2 ^ 1024 - 2 ^ 971, fl_log = ln,
      fl_pow = (\<lambda>x y. x powr y), fresh_bit = (\<lambda>i. True), max_bits = 2 ^ 40\<rparr>"


section \<open>Auxiliary facts\<close>

subsection \<open>Exceptions, indices, single bits\<close>

lemma exit_on_exception_eq [simp]: "exit_on_exception e = SystemExit"
  by (simp add: exit_on_exception_def is_Exception_def)

lemma py_index_in_range: "0 \<le> i \<Longrightarrow> i < int n \<Longrightarrow> py_index n i = Inr (nat i)"
  by (simp add: py_index_def)

lemma py_index_bound: "py_index n i = Inr j \<Longrightarrow> j < n"
  by (auto simp: py_index_def Let_def split: if_splits)

lemma setitem_length: "bitarray_setitem bits i v = Inr bits' \<Longrightarrow> length bits' = length bits"
  by (auto simp: bitarray_setitem_def split: sum.splits)

lemma setitem_mono:
  "bitarray_setitem bits i True = Inr bits' \<Longrightarrow> bit_set bits j \<Longrightarrow> bit_set bits' j"
  by (auto simp: bitarray_setitem_def bit_set_def nth_list_update
           dest: py_index_bound split: sum.splits)

lemma setitem_in_range:
  "0 < s \<Longrightarrow> length bits = nat s \<Longrightarrow>
   bitarray_setitem bits (c mod s) v = Inr (bits[nat (c mod s) := v])"
  by (simp add: bitarray_setitem_def py_index_in_range)

lemma getitem_in_range:
  "0 < s \<Longrightarrow> length bits = nat s \<Longrightarrow>
   bitarray_getitem bits (c mod s) = Inr (bits ! nat (c mod s))"
  by (simp add: bitarray_getitem_def py_index_in_range)

subsection \<open>The two loops\<close>

lemma add_loop_length: "length (snd (add_loop s bits c h k)) = length bits"
  by (induction k arbitrary: bits c) (auto split: sum.splits dest: setitem_length)

lemma add_loop_mono: "bit_set bits j \<Longrightarrow> bit_set (snd (add_loop s bits c h k)) j"
  by (induction k arbitrary: bits c) (auto split: sum.splits dest: setitem_mono)

lemma add_loop_ok:
  "0 < s \<Longrightarrow> length bits = nat s \<Longrightarrow> fst (add_loop s bits c h k) = None"
  by (induction k arbitrary: bits c) (simp_all add: py_mod_def setitem_in_range)

lemma add_loop_sets:
  "0 < s \<Longrightarrow> length bits = nat s \<Longrightarrow> i < k \<Longrightarrow>
   bit_set (snd (add_loop s bits c h k)) (probe s c h i)"
proof (induction k arbitrary: bits c i)
  case 0
  then show ?case by simp
next
  case (Suc k)
  let ?b = "bits[nat (c mod s) := True]"
  have step: "add_loop s bits c h (Suc k) = add_loop s ?b (c + h) h k"
    using Suc.prems by (simp add: py_mod_def setitem_in_range)
  show ?case
  proof (cases i)
    case 0
    have "bit_set ?b (nat (c mod s))"
      using Suc.prems by (simp add: bit_set_def nat_less_iff)
    then show ?thesis
      using 0 step by (simp add: probe_def add_loop_mono)
  next
    case (Suc i')
    have "bit_set (snd (add_loop s ?b (c + h) h k)) (probe s (c + h) h i')"
      using Suc.prems Suc by (intro Suc.IH) simp_all
    moreover have "probe s (c + h) h i' = probe s c h i"
      using Suc by (simp add: probe_def algebra_simps)
    ultimately show ?thesis using step by simp
  qed
qed

lemma contain_loop_char:
  "0 < s \<Longrightarrow> length bits = nat s \<Longrightarrow>
   contain_loop s bits c h k = Inr (\<forall>i<k. bit_set bits (probe s c h i))"
proof (induction k arbitrary: c)
  case 0
  then show ?case by simp
next
  case (Suc k)
  have shift: "probe s (c + h) h i = probe s c h (Suc i)" for i
    by (simp add: probe_def algebra_simps)
  have p0: "probe s c h 0 = nat (c mod s)" by (simp add: probe_def)
  have inr: "nat (c mod s) < length bits" using Suc.prems by (simp add: nat_less_iff)
  show ?case
  proof (cases "bits ! nat (c mod s)")
    case False
    then have "\<not> bit_set bits (probe s c h 0)" by (simp add: p0 bit_set_def)
    then have "\<not> (\<forall>i<Suc k. bit_set bits (probe s c h i))" by blast
    then show ?thesis
      using False Suc.prems by (simp add: py_mod_def getitem_in_range)
  next
    case True
    then have b0: "bit_set bits (probe s c h 0)" using inr by (simp add: p0 bit_set_def)
    have "(\<forall>i<Suc k. bit_set bits (probe s c h i)) = (\<forall>i<k. bit_set bits (probe s c h (Suc i)))"
      using b0 by (auto simp: less_Suc_eq_0_disj)
    then show ?thesis
      using True Suc.prems Suc.IH [of "c + h"] by (simp add: py_mod_def getitem_in_range shift)
  qed
qed

subsection \<open>Rounding to an integer\<close>

lemma py_round_bounds: "x - 1 / 2 \<le> of_int (py_round x) \<and> of_int (py_round x) \<le> x + 1 / 2"
  unfolding py_round_def Let_def by (auto; linarith)

lemma py_round_eqI: "of_int k - 1 / 2 < x \<Longrightarrow> x < of_int k + 1 / 2 \<Longrightarrow> py_round x = k"
  using py_round_bounds [of x] by linarith

lemma py_round_0 [simp]: "py_round 0 = 0"
  by (simp add: py_round_def)



subsection \<open>Evaluation steps and the assumptions on the platform\<close>

lemma exn_bind_Inr [simp]: "exn_bind (Inr a) f = f a"
  by (simp add: exn_bind_def)

lemma exn_bind_Inl [simp]: "exn_bind (Inl e) f = Inl e"
  by (simp add: exn_bind_def)

lemma exn_bind_eq_Inr: "exn_bind m f = Inr b \<longleftrightarrow> (\<exists>a. m = Inr a \<and> f a = Inr b)"
  by (cases m) simp_all

lemma fl_result_ok: "\<bar>r\<bar> \<le> fl_max P \<Longrightarrow> fl_result P r = Inr r"
  by (simp add: fl_result_def)

lemma fl_result_Inr: "fl_result P r = Inr r' \<Longrightarrow> r' = r"
  by (simp add: fl_result_def split: if_splits)

lemma ieee_round_zero: "ieee_double P \<Longrightarrow> fl_round P 0 = 0"
  by (simp add: ieee_double_def)

lemma ieee_round_mono: "ieee_double P \<Longrightarrow> x \<le> y \<Longrightarrow> fl_round P x \<le> fl_round P y"
  by (simp add: ieee_double_def)


lemma ieee_round_nonpos: "ieee_double P \<Longrightarrow> x \<le> 0 \<Longrightarrow> fl_round P x \<le> 0"
  using ieee_round_mono [of P x 0] by (simp add: ieee_round_zero)

lemma ieee_max: "ieee_double P \<Longrightarrow> 2 ^ 70 \<le> fl_max P"
proof -
  assume "ieee_double P"
  then have "2 ^ 1023 \<le> fl_max P" by (simp add: ieee_double_def)
  moreover have "(2::real) ^ 70 \<le> 2 ^ 1023" by (rule power_increasing) simp_all
  ultimately show ?thesis by linarith
qed

lemma ieee_round_rel:
  assumes "ieee_double P" and "1 / 2 ^ 60 \<le> \<bar>x\<bar>"
  shows "\<bar>fl_round P x - x\<bar> \<le> \<bar>x\<bar> / 10000"
proof -
  have "(2::real) ^ 60 \<le> 2 ^ 1022" by (rule power_increasing) simp_all
  then have "1 / (2::real) ^ 1022 \<le> 1 / 2 ^ 60" by (simp add: frac_le)
  then have "1 / 2 ^ 1022 \<le> \<bar>x\<bar>" using assms(2) by linarith
  then have "\<bar>fl_round P x - x\<bar> \<le> \<bar>x\<bar> / 2 ^ 53"
    using assms(1) by (simp add: ieee_double_def)
  moreover have "\<bar>x\<bar> / 2 ^ 53 \<le> \<bar>x\<bar> / 10000"
    by (intro divide_left_mono) simp_all
  ultimately show ?thesis by linarith
qed

lemma ieee_round_pos:
  assumes "ieee_double P" and "1 / 2 ^ 60 \<le> x"
  shows "x * (9999 / 10000) \<le> fl_round P x \<and> fl_round P x \<le> x * (10001 / 10000)"
proof -
  have "0 < x" using assms(2) by (rule less_le_trans [rotated]) simp
  then have "\<bar>fl_round P x - x\<bar> \<le> x / 10000"
    using ieee_round_rel [OF assms(1), of x] assms(2) by simp
  then show ?thesis by linarith
qed

lemma ieee_round_neg:
  assumes "ieee_double P" and "x \<le> - (1 / 2 ^ 60)"
  shows "x * (10001 / 10000) \<le> fl_round P x \<and> fl_round P x \<le> x * (9999 / 10000)"
proof -
  have "x < 0" using assms(2) by (rule le_less_trans) simp
  then have "\<bar>fl_round P x - x\<bar> \<le> - x / 10000"
    using ieee_round_rel [OF assms(1), of x] assms(2) by simp
  then show ?thesis by linarith
qed

lemma ieee_log_rel:
  assumes "ieee_double P" and "0 < x"
  shows "\<bar>fl_log P x - ln x\<bar> \<le> \<bar>ln x\<bar> / 10000"
proof -
  have "\<bar>fl_log P x - ln x\<bar> \<le> \<bar>ln x\<bar> / 2 ^ 50"
    using assms by (simp add: ieee_double_def)
  moreover have "\<bar>ln x\<bar> / 2 ^ 50 \<le> \<bar>ln x\<bar> / 10000"
    by (intro divide_left_mono) simp_all
  ultimately show ?thesis by linarith
qed

lemma ieee_pow_rel:
  assumes "ieee_double P" and "0 \<le> y" and "y \<le> 1"
  shows "\<bar>fl_pow P 2 y - 2 powr y\<bar> \<le> 2 powr y / 10000"
proof -
  have "\<bar>fl_pow P 2 y - 2 powr y\<bar> \<le> 2 powr y / 2 ^ 50"
    using assms by (simp add: ieee_double_def)
  moreover have "2 powr y / 2 ^ 50 \<le> 2 powr y / 10000"
    by (intro divide_left_mono) simp_all
  ultimately show ?thesis by linarith
qed

lemma ln_near_one:
  "ln (10001 / 10000 :: real) \<le> 1 / 10000" "- (2 / 10000) \<le> ln (9999 / 10000 :: real)"
proof -
  show "ln (10001 / 10000 :: real) \<le> 1 / 10000"
    using ln_le_minus_one [of "10001 / 10000 :: real"] by simp
  have "ln (10000 / 9999 :: real) \<le> 10000 / 9999 - 1"
    by (rule ln_le_minus_one) simp
  moreover have "ln (10000 / 9999 :: real) = - ln (9999 / 10000)"
    by (simp add: ln_div)
  ultimately show "- (2 / 10000) \<le> ln (9999 / 10000 :: real)" by simp
qed

subsection \<open>Bounds on \<open>ln 2\<close> and the divisor of the size formula\<close>

lemma ln2_ge: "13 / 20 \<le> ln (2::real)"
proof -
  have "exp (13 / 160 :: real) * (1 - 13 / 160) \<le> 1"
    using exp_ge_add_one_self [of "- (13 / 160) :: real"]
    by (simp add: exp_minus field_simps)
  then have e: "exp (13 / 160 :: real) \<le> 160 / 147" by (simp add: field_simps)
  have "exp (13 / 20 :: real) = exp (13 / 160) ^ 8"
    by (simp add: exp_of_nat_mult [symmetric])
  also have "\<dots> \<le> (160 / 147) ^ 8"
    using e by (intro power_mono) simp_all
  also have "\<dots> \<le> (2::real)" by (simp add: power_divide)
  finally have "exp (13 / 20 :: real) \<le> 2" .
  then show ?thesis using ln_ge_iff [of 2 "13 / 20"] by simp
qed

lemma ln2_less: "ln (2::real) < 139 / 200"
proof -
  have q: "1 + (139 / 1600) + (139 / 1600)\<^sup>2 / 2 \<le> exp (139 / 1600 :: real)"
    by (rule exp_lower_Taylor_quadratic) simp
  have "(2::real) < (1 + (139 / 1600) + (139 / 1600)\<^sup>2 / 2) ^ 8"
    by (simp add: power2_eq_square power_divide)
  also have "\<dots> \<le> exp (139 / 1600 :: real) ^ 8"
    using q by (intro power_mono) simp_all
  also have "\<dots> = exp (139 / 200 :: real)"
    by (simp add: exp_of_nat_mult [symmetric])
  finally have "exp (ln 2) < exp (139 / 200 :: real)" by simp
  then show ?thesis by (simp only: exp_less_cancel_iff)
qed

lemma ln2_sq_bounds: "169 / 400 \<le> (ln (2::real))\<^sup>2" "(ln (2::real))\<^sup>2 < 1 / 2"
proof -
  have "(13 / 20)\<^sup>2 \<le> (ln (2::real))\<^sup>2"
    using ln2_ge by (intro power_mono) simp_all
  then show "169 / 400 \<le> (ln (2::real))\<^sup>2" by (simp add: power2_eq_square)
  have "(ln (2::real))\<^sup>2 < (139 / 200)\<^sup>2"
    using ln2_less ln2_ge by (intro power_strict_mono) simp_all
  then show "(ln (2::real))\<^sup>2 < 1 / 2" by (simp add: power2_eq_square)
qed

lemma ieee_exact: "ieee_double exact_platform"
proof -
  have "(2::real) ^ 971 \<le> 2 ^ 1023" by (rule power_increasing) simp_all
  moreover have "(2::real) ^ 1024 = 2 * 2 ^ 1023" by simp
  ultimately have "(2::real) ^ 1023 \<le> 2 ^ 1024 - 2 ^ 971" by linarith
  then show ?thesis by (simp add: ieee_double_def exact_platform_def)
qed

lemma ieee_log2:
  assumes "ieee_double P"
  shows "math_log P 2 = Inr (fl_log P 2)"
    and "ln 2 * (9999 / 10000) \<le> fl_log P 2" and "fl_log P 2 \<le> ln 2 * (10001 / 10000)"
    and "64 / 100 \<le> fl_log P 2" and "fl_log P 2 \<le> 7 / 10"
proof -
  show "math_log P 2 = Inr (fl_log P 2)" by (simp add: math_log_def)
  have "\<bar>fl_log P 2 - ln 2\<bar> \<le> \<bar>ln 2\<bar> / 10000"
    using assms by (rule ieee_log_rel) simp
  moreover have "0 < ln (2::real)" by simp
  ultimately have a: "\<bar>fl_log P 2 - ln 2\<bar> \<le> ln 2 / 10000" by simp
  from a show "ln 2 * (9999 / 10000) \<le> fl_log P 2" by linarith
  from a show "fl_log P 2 \<le> ln 2 * (10001 / 10000)" by linarith
  from a ln2_ge show "64 / 100 \<le> fl_log P 2" by linarith
  from a ln2_less show "fl_log P 2 \<le> 7 / 10" by linarith
qed

lemma ln_scale: "0 < a \<Longrightarrow> 0 < c \<Longrightarrow> ln (a * c) = ln a + ln (c::real)"
  by (simp add: ln_mult)

lemma size_divisor_near:
  assumes P: "ieee_double P"
  shows "\<exists>d. size_divisor P = Inr d \<and> \<bar>d + (ln 2)\<^sup>2\<bar> \<le> 1 / 1000"
proof -
  define L where "L = ln (2::real)"
  define l2 where "l2 = fl_log P 2"
  have L: "13 / 20 \<le> L" "L < 139 / 200" using ln2_ge ln2_less by (simp_all add: L_def)
  have l2: "L * (9999 / 10000) \<le> l2" "l2 \<le> L * (10001 / 10000)" "0 \<le> l2" "l2 \<le> 1"
    using ieee_log2 [OF P] by (simp_all add: l2_def L_def)
  have s1: "math_log P 2 = Inr l2" by (simp add: math_log_def l2_def)
  define E where "E = (2::real) powr l2"
  have lnE: "ln E = l2 * L" by (simp add: E_def L_def)
  have Epos: "0 < E" by (simp add: E_def)
  have E1: "1 \<le> E" unfolding E_def using l2 by (simp add: ge_one_powr_ge_zero)
  have "E \<le> 2 powr 1" unfolding E_def using l2 by (intro powr_mono) simp_all
  then have E2: "E \<le> 2" by simp
  define pw where "pw = fl_pow P 2 l2"
  have "\<bar>pw - E\<bar> \<le> E / 10000"
    unfolding pw_def E_def using P l2 by (intro ieee_pow_rel) simp_all
  then have pw: "E * (9999 / 10000) \<le> pw" "pw \<le> E * (10001 / 10000)" by linarith+
  have pwpos: "0 < pw" using pw E1 by linarith
  have "\<bar>pw\<bar> \<le> 2 ^ 70" using pw pwpos E2 by simp
  then have s2: "float_pow P 2 l2 = Inr pw"
    using ieee_max [OF P] by (simp add: float_pow_def pw_def fl_result_ok)
  define r where "r = 1 / pw"
  define inv where "inv = fl_round P r"
  have ipw: "1 / 3 \<le> r" "r \<le> 2"
    using pw pwpos E1 E2 by (simp_all add: r_def field_simps)
  have rpos: "0 < r" using ipw by linarith
  have "1 / 2 ^ 60 \<le> r" using ipw by simp
  then have inv: "r * (9999 / 10000) \<le> inv" "inv \<le> r * (10001 / 10000)"
    using ieee_round_pos [OF P, of r] by (simp_all add: inv_def)
  have invpos: "0 < inv" using inv ipw by linarith
  have "\<bar>inv\<bar> \<le> 2 ^ 70" using inv ipw invpos by simp
  then have s3: "float_div P 1 pw = Inr inv"
    using ieee_max [OF P] pwpos by (simp add: float_div_def inv_def r_def fl_result_ok)
  have lnr: "ln r = - ln pw" using pwpos by (simp add: r_def ln_div)
  define d where "d = fl_log P inv"
  have s4: "math_log P inv = Inr d" using invpos by (simp add: math_log_def d_def)
  have res: "size_divisor P = Inr d" by (simp add: size_divisor_def s1 s2 s3 s4)
  \<comment> \<open>the logarithm of \<open>inv\<close>\<close>
  have lpw_hi: "ln pw \<le> ln E + 1 / 10000"
  proof -
    have "ln pw \<le> ln (E * (10001 / 10000))"
      using pw pwpos by (subst ln_le_cancel_iff) (use Epos in simp_all)
    also have "\<dots> = ln E + ln (10001 / 10000)" using Epos by (intro ln_scale) simp_all
    finally show ?thesis using ln_near_one(1) by linarith
  qed
  have lpw_lo: "ln E - 2 / 10000 \<le> ln pw"
  proof -
    have "ln (E * (9999 / 10000)) \<le> ln pw"
      using pw pwpos by (subst ln_le_cancel_iff) (use Epos in simp_all)
    moreover have "ln (E * (9999 / 10000)) = ln E + ln (9999 / 10000)"
      using Epos by (intro ln_scale) simp_all
    ultimately show ?thesis using ln_near_one(2) by linarith
  qed
  have linv_hi: "ln inv \<le> - ln pw + 1 / 10000"
  proof -
    have "ln inv \<le> ln (r * (10001 / 10000))"
      using inv invpos by (subst ln_le_cancel_iff) (use rpos in simp_all)
    also have "\<dots> = ln r + ln (10001 / 10000)" using rpos by (intro ln_scale) simp_all
    finally show ?thesis using ln_near_one(1) lnr by linarith
  qed
  have linv_lo: "- ln pw - 2 / 10000 \<le> ln inv"
  proof -
    have "ln (r * (9999 / 10000)) \<le> ln inv"
      using inv invpos by (subst ln_le_cancel_iff) (use rpos in simp_all)
    moreover have "ln (r * (9999 / 10000)) = ln r + ln (9999 / 10000)"
      using rpos by (intro ln_scale) simp_all
    ultimately show ?thesis using ln_near_one(2) lnr by linarith
  qed
  have LL: "169 / 400 \<le> L\<^sup>2" "L\<^sup>2 < 1 / 2" using ln2_sq_bounds by (simp_all add: L_def)
  have "L * (L * (9999 / 10000)) \<le> L * l2" "L * l2 \<le> L * (L * (10001 / 10000))"
    using l2 L by (simp_all add: mult_left_mono)
  then have lE: "L\<^sup>2 * (9999 / 10000) \<le> ln E" "ln E \<le> L\<^sup>2 * (10001 / 10000)"
    by (simp_all add: lnE power2_eq_square mult.commute mult.left_commute)
  have near: "\<bar>ln inv + L\<^sup>2\<bar> \<le> 4 / 10000"
    using lE LL lpw_hi lpw_lo linv_hi linv_lo by linarith
  then have "\<bar>ln inv\<bar> \<le> 1" using LL by linarith
  moreover have "\<bar>d - ln inv\<bar> \<le> \<bar>ln inv\<bar> / 10000"
    unfolding d_def using P invpos by (rule ieee_log_rel)
  ultimately have "\<bar>d + L\<^sup>2\<bar> \<le> 1 / 1000" using near by linarith
  then show ?thesis using res by (auto simp: L_def)
qed

subsection \<open>Relative errors\<close>

lemma rel_mult:
  fixes a b c d :: real
  assumes "\<bar>a - b\<bar> \<le> e1 * \<bar>b\<bar>" and "\<bar>c - d\<bar> \<le> e2 * \<bar>d\<bar>" and "0 \<le> e1" and "0 \<le> e2"
  shows "\<bar>a * c - b * d\<bar> \<le> (e1 + e2 + e1 * e2) * \<bar>b * d\<bar>"
proof -
  have eq: "a * c - b * d = (a - b) * (c - d) + (a - b) * d + b * (c - d)"
    by (simp add: algebra_simps)
  have 1: "\<bar>(a - b) * (c - d)\<bar> \<le> (e1 * \<bar>b\<bar>) * (e2 * \<bar>d\<bar>)"
    unfolding abs_mult using assms by (intro mult_mono) simp_all
  have 2: "\<bar>(a - b) * d\<bar> \<le> (e1 * \<bar>b\<bar>) * \<bar>d\<bar>"
    unfolding abs_mult using assms by (intro mult_right_mono) simp_all
  have 3: "\<bar>b * (c - d)\<bar> \<le> \<bar>b\<bar> * (e2 * \<bar>d\<bar>)"
    unfolding abs_mult using assms by (intro mult_left_mono) simp_all
  have "\<bar>a * c - b * d\<bar> \<le> \<bar>(a - b) * (c - d)\<bar> + \<bar>(a - b) * d\<bar> + \<bar>b * (c - d)\<bar>"
    unfolding eq by linarith
  also have "\<dots> \<le> (e1 * \<bar>b\<bar>) * (e2 * \<bar>d\<bar>) + (e1 * \<bar>b\<bar>) * \<bar>d\<bar> + \<bar>b\<bar> * (e2 * \<bar>d\<bar>)"
    using 1 2 3 by linarith
  also have "\<dots> = (e1 + e2 + e1 * e2) * \<bar>b * d\<bar>"
    by (simp add: abs_mult algebra_simps)
  finally show ?thesis .
qed

lemma rel_trans:
  fixes a b c :: real
  assumes "\<bar>a - b\<bar> \<le> e1 * \<bar>b\<bar>" and "\<bar>b - c\<bar> \<le> e2 * \<bar>c\<bar>" and "0 \<le> e1"
  shows "\<bar>a - c\<bar> \<le> (e1 + e2 + e1 * e2) * \<bar>c\<bar>"
proof -
  have "\<bar>b\<bar> \<le> \<bar>c\<bar> + e2 * \<bar>c\<bar>" using assms(2) by linarith
  then have "e1 * \<bar>b\<bar> \<le> e1 * (\<bar>c\<bar> + e2 * \<bar>c\<bar>)" using assms(3) by (rule mult_left_mono)
  then have "\<bar>a - c\<bar> \<le> e1 * (\<bar>c\<bar> + e2 * \<bar>c\<bar>) + e2 * \<bar>c\<bar>" using assms(1,2) by linarith
  also have "\<dots> = (e1 + e2 + e1 * e2) * \<bar>c\<bar>" by (simp add: algebra_simps)
  finally show ?thesis .
qed

lemma rel_lower:
  fixes a b :: real
  assumes "\<bar>a - b\<bar> \<le> e * \<bar>b\<bar>"
  shows "(1 - e) * \<bar>b\<bar> \<le> \<bar>a\<bar>" and "\<bar>a\<bar> \<le> (1 + e) * \<bar>b\<bar>"
  using assms by (simp_all add: algebra_simps)

lemma quotient_rel:
  fixes X u A v :: real
  assumes u: "\<bar>u\<bar> \<le> a * \<bar>X\<bar>" and v: "\<bar>v\<bar> \<le> b" and A: "0 < A" and b: "b < A"
    and a: "0 \<le> a" and c: "a * A + b \<le> c * (A - b)"
  shows "\<bar>(X + u) / (A + v) - X / A\<bar> \<le> c * (\<bar>X\<bar> / A)"
proof -
  define D where "D = A + v"
  have D: "A - b \<le> D" "0 < D" using v b by (simp_all add: D_def)
  have c0: "0 \<le> c"
  proof -
    have "0 \<le> a * A + b" using a A v by (simp add: order_trans [OF abs_ge_zero])
    then have "0 \<le> c * (A - b)" using c by linarith
    then show ?thesis using b by (simp add: zero_le_mult_iff)
  qed
  have eq: "(X + u) / D - X / A = (A * u - X * v) / (A * D)"
    using A D by (simp add: D_def field_simps)
  have "\<bar>A * u\<bar> \<le> A * (a * \<bar>X\<bar>)" unfolding abs_mult using u A by (simp add: mult_left_mono)
  moreover have "\<bar>X * v\<bar> \<le> \<bar>X\<bar> * b" unfolding abs_mult using v by (simp add: mult_left_mono)
  ultimately have "\<bar>A * u - X * v\<bar> \<le> A * (a * \<bar>X\<bar>) + \<bar>X\<bar> * b" by linarith
  also have "\<dots> = \<bar>X\<bar> * (a * A + b)" by (simp add: algebra_simps)
  also have "\<dots> \<le> \<bar>X\<bar> * (c * (A - b))" using c by (intro mult_left_mono) simp_all
  also have "\<dots> \<le> \<bar>X\<bar> * (c * D)" using D c0 by (intro mult_left_mono) simp_all
  finally have num: "\<bar>A * u - X * v\<bar> \<le> \<bar>X\<bar> * (c * D)" .
  have "\<bar>(X + u) / D - X / A\<bar> = \<bar>A * u - X * v\<bar> / (A * D)"
    unfolding eq using A D by (simp add: abs_mult)
  also have "\<dots> \<le> (\<bar>X\<bar> * (c * D)) / (A * D)"
    using num A D by (intro divide_right_mono) simp_all
  also have "\<dots> = c * (\<bar>X\<bar> / A)" using A D by simp
  finally show ?thesis by (simp add: D_def)
qed

subsection \<open>The size and the number of hash rounds, up to rounding\<close>

lemma get_filter_size_steps:
  assumes "0 < p" and "size_divisor P = Inr d" and "d \<noteq> 0"
  shows "get_filter_size P n p =
     (if fl_max P < \<bar>fl_round P (of_int n)\<bar> \<or>
         fl_max P < \<bar>fl_round P (fl_round P (of_int n) * fl_log P p)\<bar> \<or>
         fl_max P < \<bar>fl_round P (fl_round P (fl_round P (of_int n) * fl_log P p) / d)\<bar>
      then Inl SystemExit
      else Inr \<lceil>fl_round P (fl_round P (fl_round P (of_int n) * fl_log P p) / d)\<rceil>)"
  using assms
  by (simp add: get_filter_size_def size_expr_def math_log_def float_of_int_def float_mul_def
      float_div_def fl_result_def)

lemma get_filter_size_near:
  assumes P: "ieee_double P" and p: "0 < p" and n: "n \<noteq> 0"
    and X: "1 / 2 ^ 55 \<le> \<bar>of_int n * ln p\<bar>"
  obtains q where
    "\<bar>q - (of_int n * ln p) / (- (ln 2)\<^sup>2)\<bar> \<le> \<bar>(of_int n * ln p) / (- (ln 2)\<^sup>2)\<bar> / 250"
    and "get_filter_size P n p = Inl SystemExit \<or> get_filter_size P n p = Inr \<lceil>q\<rceil>"
    and "\<bar>of_int n :: real\<bar> \<le> 2 ^ 60 \<Longrightarrow> \<bar>of_int n * ln p\<bar> \<le> 2 ^ 63 \<Longrightarrow>
           get_filter_size P n p = Inr \<lceil>q\<rceil>"
proof -
  define N where "N = (of_int n :: real)"
  define X where "X = N * ln p"
  define A where "A = (ln (2::real))\<^sup>2"
  have A: "169 / 400 \<le> A" "A < 1 / 2" using ln2_sq_bounds by (simp_all add: A_def)
  have Xlo: "1 / 2 ^ 55 \<le> \<bar>X\<bar>" using X by (simp add: X_def N_def)
  obtain d where d: "size_divisor P = Inr d" "\<bar>d + A\<bar> \<le> 1 / 1000"
    using size_divisor_near [OF P] by (auto simp: A_def)
  have dneg: "d < 0" "d \<noteq> 0" using d A by linarith+
  define l where "l = fl_log P p"
  define nf where "nf = fl_round P N"
  define num where "num = fl_round P (nf * l)"
  define Q where "Q = num / d"
  define q where "q = fl_round P Q"
  \<comment> \<open>the numerator\<close>
  have N1: "1 \<le> \<bar>N\<bar>" using n by (simp add: N_def)
  have l: "\<bar>l - ln p\<bar> \<le> (1 / 10000) * \<bar>ln p\<bar>"
    using ieee_log_rel [OF P p] by (simp add: l_def)
  have "1 / 2 ^ 60 \<le> \<bar>N\<bar>" using N1 by (rule order_trans [rotated]) simp
  then have nf: "\<bar>nf - N\<bar> \<le> (1 / 10000) * \<bar>N\<bar>"
    using ieee_round_rel [OF P, of N] by (simp add: nf_def)
  have "\<bar>nf * l - N * ln p\<bar> \<le> (1 / 10000 + 1 / 10000 + 1 / 10000 * (1 / 10000)) * \<bar>N * ln p\<bar>"
    using nf l by (rule rel_mult) simp_all
  then have Y: "\<bar>nf * l - X\<bar> \<le> (3 / 10000) * \<bar>X\<bar>"
    unfolding X_def by (rule order_trans) (simp add: mult_right_mono)
  have Ylo: "(1 - 3 / 10000) * \<bar>X\<bar> \<le> \<bar>nf * l\<bar>" using rel_lower(1) [OF Y] .
  have "1 / 2 ^ 60 \<le> (1 - 3 / 10000) * (1 / 2 ^ 55 :: real)" by simp
  also have "\<dots> \<le> (1 - 3 / 10000) * \<bar>X\<bar>" using Xlo by (intro mult_left_mono) simp_all
  finally have "1 / 2 ^ 60 \<le> \<bar>nf * l\<bar>" using Ylo by linarith
  then have "\<bar>num - nf * l\<bar> \<le> (1 / 10000) * \<bar>nf * l\<bar>"
    using ieee_round_rel [OF P, of "nf * l"] by (simp add: num_def)
  then have "\<bar>num - X\<bar> \<le> (1 / 10000 + 3 / 10000 + 1 / 10000 * (3 / 10000)) * \<bar>X\<bar>"
    using Y by (rule rel_trans) simp
  then have num: "\<bar>num - X\<bar> \<le> (5 / 10000) * \<bar>X\<bar>"
    by (rule order_trans) (simp add: mult_right_mono)
  \<comment> \<open>the quotient\<close>
  have "\<bar>(X + (num - X)) / (A + (- d - A)) - X / A\<bar> \<le> (3 / 1000) * (\<bar>X\<bar> / A)"
  proof (rule quotient_rel [where a = "5 / 10000" and b = "1 / 1000"])
    show "\<bar>num - X\<bar> \<le> 5 / 10000 * \<bar>X\<bar>" by (rule num)
    show "\<bar>- d - A\<bar> \<le> 1 / 1000" using d by linarith
    show "0 < A" "1 / 1000 < A" using A by linarith+
    show "0 \<le> (5 / 10000 :: real)" by simp
    have "1003 / 1000000 \<le> (25 / 10000) * A" using A by simp
    then show "5 / 10000 * A + 1 / 1000 \<le> 3 / 1000 * (A - 1 / 1000)"
      by (simp add: algebra_simps)
  qed
  moreover have "(X + (num - X)) / (A + (- d - A)) = - Q" by (simp add: Q_def)
  ultimately have "\<bar>- Q - X / A\<bar> \<le> (3 / 1000) * (\<bar>X\<bar> / A)" by simp
  moreover define Qx where "Qx = X / (- A)"
  ultimately have Qrel: "\<bar>Q - Qx\<bar> \<le> (3 / 1000) * \<bar>Qx\<bar>"
    using A by (simp add: Qx_def abs_minus_commute)
  have Qx_abs: "\<bar>Qx\<bar> = \<bar>X\<bar> / A" using A by (simp add: Qx_def)
  have "\<bar>X\<bar> \<le> \<bar>X\<bar> / A" using A by (simp add: pos_le_divide_eq mult_left_le)
  then have Qx_lo: "1 / 2 ^ 55 \<le> \<bar>Qx\<bar>" using Xlo Qx_abs by linarith
  have Qlo: "(1 - 3 / 1000) * \<bar>Qx\<bar> \<le> \<bar>Q\<bar>" using rel_lower(1) [OF Qrel] .
  have "1 / 2 ^ 60 \<le> (1 - 3 / 1000) * (1 / 2 ^ 55 :: real)" by simp
  also have "\<dots> \<le> (1 - 3 / 1000) * \<bar>Qx\<bar>" using Qx_lo by (intro mult_left_mono) simp_all
  finally have "1 / 2 ^ 60 \<le> \<bar>Q\<bar>" using Qlo by linarith
  then have "\<bar>q - Q\<bar> \<le> (1 / 10000) * \<bar>Q\<bar>"
    using ieee_round_rel [OF P, of Q] by (simp add: q_def)
  then have "\<bar>q - Qx\<bar> \<le> (1 / 10000 + 3 / 1000 + 1 / 10000 * (3 / 1000)) * \<bar>Qx\<bar>"
    using Qrel by (rule rel_trans) simp
  then have qrel: "\<bar>q - Qx\<bar> \<le> \<bar>Qx\<bar> / 250"
    by (rule order_trans) (simp add: field_simps)
  \<comment> \<open>the result\<close>
  have steps: "get_filter_size P n p =
     (if fl_max P < \<bar>nf\<bar> \<or> fl_max P < \<bar>num\<bar> \<or> fl_max P < \<bar>q\<bar> then Inl SystemExit
      else Inr \<lceil>q\<rceil>)"
    using get_filter_size_steps [OF p d(1) dneg(2), of n]
    by (simp add: q_def Q_def num_def nf_def l_def N_def)
  have r1: "get_filter_size P n p = Inl SystemExit \<or> get_filter_size P n p = Inr \<lceil>q\<rceil>"
    by (simp add: steps)
  have r2: "get_filter_size P n p = Inr \<lceil>q\<rceil>"
    if b1: "\<bar>of_int n :: real\<bar> \<le> 2 ^ 60" and b2: "\<bar>of_int n * ln p\<bar> \<le> 2 ^ 63"
  proof -
    have m: "2 ^ 70 \<le> fl_max P" using P by (rule ieee_max)
    have "\<bar>nf\<bar> \<le> (1 + 1 / 10000) * \<bar>N\<bar>" using rel_lower(2) [OF nf] .
    then have 1: "\<bar>nf\<bar> \<le> 2 ^ 70" using b1 by (simp add: N_def)
    have "\<bar>num\<bar> \<le> (1 + 5 / 10000) * \<bar>X\<bar>" using rel_lower(2) [OF num] .
    then have 2: "\<bar>num\<bar> \<le> 2 ^ 70" using b2 by (simp add: X_def N_def)
    have bX: "\<bar>X\<bar> \<le> 2 ^ 63" using b2 by (simp add: X_def N_def)
    have "\<bar>X\<bar> / A \<le> \<bar>X\<bar> / (169 / 400)" using A by (intro divide_left_mono) simp_all
    then have "\<bar>Qx\<bar> \<le> \<bar>X\<bar> * (400 / 169)" using Qx_abs by simp
    then have Qb: "\<bar>Qx\<bar> \<le> 2 ^ 65" using bX by simp
    have "\<bar>q - Qx\<bar> \<le> (1 / 250) * \<bar>Qx\<bar>" using qrel by simp
    then have "\<bar>q\<bar> \<le> (1 + 1 / 250) * \<bar>Qx\<bar>" by (rule rel_lower(2))
    then have "\<bar>q\<bar> \<le> (251 / 250) * \<bar>Qx\<bar>" by simp
    then have "\<bar>q\<bar> \<le> 2 * \<bar>Qx\<bar>" by linarith
    then have "\<bar>q\<bar> \<le> 2 * 2 ^ 65" using Qb by linarith
    then have 3: "\<bar>q\<bar> \<le> 2 ^ 70" by simp
    show ?thesis using 1 2 3 m by (simp add: steps)
  qed
  show ?thesis
    using that [of q] qrel r1 r2 by (simp add: Qx_def X_def N_def A_def)
qed

lemma hash_count_expr_steps:
  assumes "n \<noteq> 0"
  shows "hash_count_expr P n s =
     (if fl_max P < \<bar>fl_round P (of_int s / of_int n)\<bar> \<or>
         fl_max P < \<bar>fl_round P (fl_round P (of_int s / of_int n) * fl_log P 2)\<bar>
      then Inl OverflowError
      else Inr (fl_round P (fl_round P (of_int s / of_int n) * fl_log P 2)))"
  using assms
  by (simp add: hash_count_expr_def int_truediv_def math_log_def float_mul_def fl_result_def)


lemma hash_count_expr_zero:
  assumes P: "ieee_double P" and n: "n \<noteq> 0"
  shows "hash_count_expr P n 0 = Inr 0"
proof -
  have "0 \<le> fl_max P" using ieee_max [OF P] by (rule order_trans [rotated]) simp
  then show ?thesis
    by (simp add: hash_count_expr_steps [OF n] ieee_round_zero [OF P])
qed

lemma hash_count_expr_near:
  assumes P: "ieee_double P" and n: "n \<noteq> 0"
    and lo: "1 / 2 ^ 55 \<le> \<bar>of_int s / of_int n :: real\<bar>"
    and hi: "\<bar>of_int s / of_int n :: real\<bar> \<le> 2 ^ 68"
  obtains x where "hash_count_expr P n s = Inr x"
    and "\<bar>x - (of_int s / of_int n) * ln 2\<bar> \<le> \<bar>(of_int s / of_int n) * ln 2\<bar> / 1000"
proof -
  define r where "r = (of_int s / of_int n :: real)"
  define L where "L = ln (2::real)"
  define l2 where "l2 = fl_log P 2"
  define q where "q = fl_round P r"
  define x where "x = fl_round P (q * l2)"
  have L: "13 / 20 \<le> L" "L < 139 / 200" using ln2_ge ln2_less by (simp_all add: L_def)
  have rlo: "1 / 2 ^ 55 \<le> \<bar>r\<bar>" and rhi: "\<bar>r\<bar> \<le> 2 ^ 68" using lo hi by (simp_all add: r_def)
  have "1 / 2 ^ 60 \<le> \<bar>r\<bar>" using rlo by (rule order_trans [rotated]) simp
  then have q: "\<bar>q - r\<bar> \<le> (1 / 10000) * \<bar>r\<bar>"
    using ieee_round_rel [OF P, of r] by (simp add: q_def)
  have "\<bar>l2 - L\<bar> \<le> \<bar>L\<bar> / 10000"
    unfolding l2_def L_def using P by (rule ieee_log_rel) simp
  then have l2: "\<bar>l2 - L\<bar> \<le> (1 / 10000) * \<bar>L\<bar>" by simp
  have "\<bar>q * l2 - r * L\<bar> \<le> (1 / 10000 + 1 / 10000 + 1 / 10000 * (1 / 10000)) * \<bar>r * L\<bar>"
    using q l2 by (rule rel_mult) simp_all
  then have Y: "\<bar>q * l2 - r * L\<bar> \<le> (3 / 10000) * \<bar>r * L\<bar>"
    by (rule order_trans) (simp add: mult_right_mono)
  have rL: "\<bar>r * L\<bar> = \<bar>r\<bar> * L" using L by (simp add: abs_mult)
  have "(13 / 20) * \<bar>r\<bar> \<le> L * \<bar>r\<bar>" using L by (intro mult_right_mono) simp_all
  then have "(13 / 20) * \<bar>r\<bar> \<le> \<bar>r * L\<bar>" using rL by (simp add: mult.commute)
  then have rLlo: "(13 / 20) * (1 / 2 ^ 55) \<le> \<bar>r * L\<bar>" using rlo by linarith
  have "\<bar>r\<bar> * L \<le> \<bar>r\<bar> * 1" using L by (intro mult_left_mono) simp_all
  then have rLhi: "\<bar>r * L\<bar> \<le> 2 ^ 68" using rhi rL by linarith
  have Ylo: "(1 - 3 / 10000) * \<bar>r * L\<bar> \<le> \<bar>q * l2\<bar>" using rel_lower(1) [OF Y] .
  have "1 / 2 ^ 60 \<le> (9997 / 10000) * ((13 / 20) * (1 / 2 ^ 55 :: real))" by simp
  also have "\<dots> \<le> (9997 / 10000) * \<bar>r * L\<bar>" using rLlo by (intro mult_left_mono) simp_all
  finally have "1 / 2 ^ 60 \<le> \<bar>q * l2\<bar>" using Ylo by simp
  then have "\<bar>x - q * l2\<bar> \<le> (1 / 10000) * \<bar>q * l2\<bar>"
    using ieee_round_rel [OF P, of "q * l2"] by (simp add: x_def)
  then have "\<bar>x - r * L\<bar> \<le> (1 / 10000 + 3 / 10000 + 1 / 10000 * (3 / 10000)) * \<bar>r * L\<bar>"
    using Y by (rule rel_trans) simp
  then have xrel: "\<bar>x - r * L\<bar> \<le> (1 / 1000) * \<bar>r * L\<bar>"
    by (rule order_trans) (simp add: mult_right_mono)
  have m: "2 ^ 70 \<le> fl_max P" using P by (rule ieee_max)
  have "\<bar>q\<bar> \<le> (1 + 1 / 10000) * \<bar>r\<bar>" using rel_lower(2) [OF q] .
  then have "\<bar>q\<bar> \<le> (10001 / 10000) * \<bar>r\<bar>" by simp
  then have "\<bar>q\<bar> \<le> 2 * \<bar>r\<bar>" by linarith
  then have "\<bar>q\<bar> \<le> 2 * 2 ^ 68" using rhi by linarith
  then have 1: "\<bar>q\<bar> \<le> fl_max P" using m by simp
  have "\<bar>x\<bar> \<le> (1 + 1 / 1000) * \<bar>r * L\<bar>" using rel_lower(2) [OF xrel] .
  then have "\<bar>x\<bar> \<le> (1001 / 1000) * \<bar>r * L\<bar>" by simp
  then have "\<bar>x\<bar> \<le> 2 * \<bar>r * L\<bar>" by linarith
  then have "\<bar>x\<bar> \<le> 2 * 2 ^ 68" using rLhi by linarith
  then have 2: "\<bar>x\<bar> \<le> fl_max P" using m by simp
  have "hash_count_expr P n s = Inr x"
    using 1 2 by (simp add: hash_count_expr_steps [OF n] x_def q_def r_def l2_def)
  then show ?thesis using that [of x] xrel by (simp add: r_def L_def)
qed

lemma get_hash_count_Inl: "get_hash_count P n s = Inl e \<Longrightarrow> e = SystemExit"
  by (auto simp: get_hash_count_def split: sum.splits)

lemma get_filter_size_Inl: "get_filter_size P n p = Inl e \<Longrightarrow> e = SystemExit"
  by (auto simp: get_filter_size_def split: sum.splits)

lemma get_filter_size_value:
  assumes P: "ieee_double P" and p: "0 < p" and n: "n \<noteq> 0"
    and n60: "\<bar>of_int n :: real\<bar> \<le> 2 ^ 60"
    and lo: "1 / 2 ^ 55 \<le> \<bar>of_int n * ln p\<bar>" and hi: "\<bar>of_int n * ln p\<bar> \<le> 2 ^ 63"
    and k1: "of_int k - 1 <
       (of_int n * ln p) / (- (ln 2)\<^sup>2) - \<bar>(of_int n * ln p) / (- (ln 2)\<^sup>2)\<bar> / 250"
    and k2: "(of_int n * ln p) / (- (ln 2)\<^sup>2) + \<bar>(of_int n * ln p) / (- (ln 2)\<^sup>2)\<bar> / 250
       \<le> of_int k"
  shows "get_filter_size P n p = Inr k"
proof -
  obtain q where q:
    "\<bar>q - (of_int n * ln p) / (- (ln 2)\<^sup>2)\<bar> \<le> \<bar>(of_int n * ln p) / (- (ln 2)\<^sup>2)\<bar> / 250"
    and r: "\<bar>of_int n :: real\<bar> \<le> 2 ^ 60 \<Longrightarrow> \<bar>of_int n * ln p\<bar> \<le> 2 ^ 63 \<Longrightarrow>
           get_filter_size P n p = Inr \<lceil>q\<rceil>"
    using get_filter_size_near [OF P p n lo] by blast
  define Qx where "Qx = (of_int n * ln p) / (- (ln 2)\<^sup>2)"
  have "of_int k - 1 < q" "q \<le> of_int k"
    using q k1 k2 unfolding Qx_def [symmetric] by linarith+
  then have "\<lceil>q\<rceil> = k" by (simp add: ceiling_eq_iff)
  then show ?thesis using r [OF n60 hi] by simp
qed

lemma get_hash_count_value:
  assumes P: "ieee_double P" and n: "n \<noteq> 0"
    and lo: "1 / 2 ^ 55 \<le> \<bar>of_int s / of_int n :: real\<bar>"
    and hi: "\<bar>of_int s / of_int n :: real\<bar> \<le> 2 ^ 68"
    and k1: "of_int k - 1 / 2 <
       (of_int s / of_int n) * ln 2 - \<bar>(of_int s / of_int n) * ln (2::real)\<bar> / 1000"
    and k2: "(of_int s / of_int n) * ln 2 + \<bar>(of_int s / of_int n) * ln (2::real)\<bar> / 1000
       < of_int k + 1 / 2"
  shows "get_hash_count P n s = Inr k"
proof -
  obtain x where x: "hash_count_expr P n s = Inr x"
    and r: "\<bar>x - (of_int s / of_int n) * ln 2\<bar> \<le> \<bar>(of_int s / of_int n) * ln 2\<bar> / 1000"
    using hash_count_expr_near [OF P n lo hi] by blast
  define Hx where "Hx = (of_int s / of_int n) * ln (2::real)"
  have "of_int k - 1 / 2 < x" "x < of_int k + 1 / 2"
    using r k1 k2 unfolding Hx_def [symmetric] by linarith+
  then have "py_round x = k" by (rule py_round_eqI)
  then show ?thesis using x by (simp add: get_hash_count_def)
qed

lemma ln2_sq_less: "(ln (2::real))\<^sup>2 < 19321 / 40000"
proof -
  have "(ln (2::real))\<^sup>2 < (139 / 200)\<^sup>2"
    using ln2_less ln2_ge by (intro power_strict_mono) simp_all
  then show ?thesis by (simp add: power2_eq_square)
qed

lemma size_value_pos:
  assumes P: "ieee_double P" and p: "0 < p" and n: "n \<noteq> 0"
    and n60: "\<bar>of_int n :: real\<bar> \<le> 2 ^ 60"
    and Y: "a1 \<le> - (of_int n * ln p)" "- (of_int n * ln p) \<le> a2"
    and a: "1 / 2 ^ 55 \<le> a1" "a2 \<le> 2 ^ 63"
    and k1: "of_int k - 1 < (a1 / (19321 / 40000)) * (249 / 250)"
    and k2: "(a2 / (169 / 400)) * (251 / 250) \<le> of_int k"
  shows "get_filter_size P n p = Inr k"
proof -
  define Yv where "Yv = - (of_int n * ln p)"
  define A where "A = (ln (2::real))\<^sup>2"
  define Qx where "Qx = Yv / A"
  have A: "169 / 400 \<le> A" "A < 19321 / 40000"
    using ln2_sq_bounds(1) ln2_sq_less by (simp_all add: A_def)
  have Yb: "a1 \<le> Yv" "Yv \<le> a2" using Y by (simp_all add: Yv_def)
  have a1pos: "0 < a1" using a(1) by (rule less_le_trans [rotated]) simp
  have "a1 / (19321 / 40000) \<le> Yv / A"
    using Yb A a1pos by (intro frac_le) simp_all
  moreover have "Yv / A \<le> a2 / (169 / 400)"
    using Yb A a1pos by (intro frac_le) simp_all
  ultimately have Q0: "a1 / (19321 / 40000) \<le> Qx" "Qx \<le> a2 / (169 / 400)"
    by (simp_all add: Qx_def)
  define lo where "lo = a1 / (19321 / 40000)"
  define hi where "hi = a2 / (169 / 400)"
  have Q: "lo \<le> Qx" "Qx \<le> hi" using Q0 by (simp_all add: lo_def hi_def)
  have "0 < lo" using a1pos by (simp add: lo_def)
  then have Qpos: "0 < Qx" using Q(1) by linarith
  note k1 = k1 [folded lo_def hi_def] and k2 = k2 [folded lo_def hi_def]
  have eq: "(of_int n * ln p) / (- (ln 2)\<^sup>2) = Qx"
    by (simp add: Qx_def Yv_def A_def)
  have absX: "\<bar>of_int n * ln p\<bar> = Yv" using Yb a1pos by (simp add: Yv_def)
  show ?thesis
  proof (rule get_filter_size_value [OF P p n n60])
    show "1 / 2 ^ 55 \<le> \<bar>of_int n * ln p\<bar>" using absX Yb a by linarith
    show "\<bar>of_int n * ln p\<bar> \<le> 2 ^ 63" using absX Yb a by linarith
    show "of_int k - 1 < (of_int n * ln p) / (- (ln 2)\<^sup>2)
        - \<bar>(of_int n * ln p) / (- (ln 2)\<^sup>2)\<bar> / 250"
      unfolding eq using Q Qpos k1 by linarith
    show "(of_int n * ln p) / (- (ln 2)\<^sup>2)
        + \<bar>(of_int n * ln p) / (- (ln 2)\<^sup>2)\<bar> / 250 \<le> of_int k"
      unfolding eq using Q Qpos k2 by linarith
  qed
qed


lemma hash_value_pos:
  assumes P: "ieee_double P" and n: "n \<noteq> 0" and r: "(of_int s / of_int n :: real) = r"
    and b: "1 / 2 ^ 55 \<le> r" "r \<le> 2 ^ 68"
    and k1: "of_int k - 1 / 2 < r * (12987 / 20000)"
    and k2: "r * (139139 / 200000) \<le> of_int k + 1 / 2"
  shows "get_hash_count P n s = Inr k"
proof -
  define L where "L = ln (2::real)"
  have L: "13 / 20 \<le> L" "L < 139 / 200" using ln2_ge ln2_less by (simp_all add: L_def)
  have rpos: "0 < r" using b(1) by (rule less_le_trans [rotated]) simp
  define H where "H = r * L"
  have "r * (13 / 20) \<le> r * L" "r * L < r * (139 / 200)"
    using L rpos by (simp_all add: mult_left_mono)
  then have H: "r * (13 / 20) \<le> H" "H < r * (139 / 200)" "0 < H"
    using rpos by (simp_all add: H_def)
  show ?thesis
  proof (rule get_hash_count_value [OF P n])
    show "1 / 2 ^ 55 \<le> \<bar>of_int s / of_int n :: real\<bar>" using b rpos by (simp add: r)
    show "\<bar>of_int s / of_int n :: real\<bar> \<le> 2 ^ 68" using b rpos by (simp add: r)
    show "of_int k - 1 / 2 < (of_int s / of_int n) * ln 2
        - \<bar>(of_int s / of_int n) * ln (2::real)\<bar> / 1000"
      unfolding r L_def [symmetric] H_def [symmetric] using H k1 by linarith
    show "(of_int s / of_int n) * ln 2 + \<bar>(of_int s / of_int n) * ln (2::real)\<bar> / 1000
        < of_int k + 1 / 2"
      unfolding r L_def [symmetric] H_def [symmetric] using H k2 by linarith
  qed
qed


subsection \<open>Capacity of concrete filters\<close>




lemma ln_eighth: "ln (1 / 8 :: real) = - (3 * ln 2)"
proof -
  have "ln (8::real) = ln (2 ^ 3)" by simp
  also have "\<dots> = 3 * ln 2" by (simp only: ln_realpow)
  finally show ?thesis by (simp add: ln_div)
qed

lemma size_1_8: "ieee_double P \<Longrightarrow> get_filter_size P 1 (1 / 8) = Inr 5"
proof (rule size_value_pos [where ?a1.0 = "195 / 100" and ?a2.0 = "2085 / 1000"])
  show "195 / 100 \<le> - (of_int 1 * ln (1 / 8 :: real))"
    using ln2_ge by (simp add: ln_eighth)
  show "- (of_int 1 * ln (1 / 8 :: real)) \<le> 2085 / 1000"
    using ln2_less by (simp add: ln_eighth)
qed simp_all

lemma hash_count_1_5: "ieee_double P \<Longrightarrow> get_hash_count P 1 5 = Inr 3"
  by (rule hash_value_pos [where r = 5]) simp_all







lemma get_hash_count_zero:
  "ieee_double P \<Longrightarrow> n \<noteq> 0 \<Longrightarrow> get_hash_count P n 0 = Inr 0"
  by (simp add: get_hash_count_def hash_count_expr_zero)



subsection \<open>The constructor\<close>


lemma init_eval:
  "BloomFilter_init P n p c =
     (case get_filter_size P n p of
        Inl e \<Rightarrow> Inl SystemExit
      | Inr s \<Rightarrow>
          (case get_hash_count P n s of
             Inl e \<Rightarrow> Inl SystemExit
           | Inr h \<Rightarrow>
               if s < - (2 ^ 63) \<or> 2 ^ 63 \<le> s then Inl OverflowError
               else if s < 0 then Inl ValueError
               else if max_bits P < s then Inl MemoryError
               else Inr \<lparr>items_count = n, probability = p, case_sensitive = c, counter = 0,
                         delete_threshold = False, filter_size = s, hash_count = h,
                         bloom_bitarray = replicate (nat s) False\<rparr>))"
  by (auto simp: BloomFilter_init_def bitarray_new_def setall_def
      split: sum.splits dest: get_filter_size_Inl get_hash_count_Inl)


lemma init_no_items: "BloomFilter_init P 0 p c = Inl SystemExit"
  by (simp add: init_eval get_hash_count_def hash_count_expr_def int_truediv_def
      split: sum.splits)


lemma wf_filter_init:
  assumes P: "ieee_double P" and f: "BloomFilter_init P n p c = Inr f"
  shows "wf_filter f"
proof -
  obtain s where s: "get_filter_size P n p = Inr s"
    using f by (cases "get_filter_size P n p") (simp_all add: init_eval)
  obtain h where h: "get_hash_count P n s = Inr h"
    using f s by (cases "get_hash_count P n s") (simp_all add: init_eval)
  have n: "n \<noteq> 0" using f init_no_items [of P p c] by auto
  have s0: "0 \<le> s" and ff: "filter_size f = s" "hash_count f = h"
    "bloom_bitarray f = replicate (nat s) False"
    using f s h by (auto simp: init_eval split: if_splits)
  have "h = 0" if "s = 0"
    using h that get_hash_count_zero [OF P n] by simp
  then show ?thesis using s0 by (auto simp: wf_filter_def ff)
qed

lemma example_init:
  assumes "ieee_double P" and "5 \<le> max_bits P"
  shows "BloomFilter_init P 1 (1 / 8) c = Inr (example_filter c)"
  using assms
  by (simp add: init_eval size_1_8 hash_count_1_5 example_filter_def numeral_eq_Suc)

lemma wf_example: "wf_filter (example_filter c)"
  by (simp add: wf_filter_def example_filter_def)

lemma exact_max_bits: "max_bits exact_platform = 2 ^ 40"
  by (simp add: exact_platform_def)


subsection \<open>The methods\<close>

lemma get_hash_Inl: "get_hash H x c = Inl e \<Longrightarrow> e = SystemExit"
  by (auto simp: get_hash_def split: sum.splits prod.splits)

lemma add_hash_fails:
  "get_hash H (PyStr (py_str x)) (case_sensitive f) = Inl e \<Longrightarrow> add H f x = (Some SystemExit, f)"
  by (frule get_hash_Inl) (simp add: add_def add_hash_vals_def)

lemma add_hash_ok:
  assumes "get_hash H (PyStr (py_str x)) (case_sensitive f) = Inr (h1, h2)"
  shows "add H f x =
     (if fst (add_loop (filter_size f) (bloom_bitarray f) h1 h2 (nat (hash_count f))) = None
      then (None, f\<lparr>bloom_bitarray :=
                       snd (add_loop (filter_size f) (bloom_bitarray f) h1 h2 (nat (hash_count f))),
                     counter := counter f + 1\<rparr>)
      else (Some SystemExit,
            f\<lparr>bloom_bitarray :=
                 snd (add_loop (filter_size f) (bloom_bitarray f) h1 h2 (nat (hash_count f)))\<rparr>))"
  using assms
  by (cases "add_loop (filter_size f) (bloom_bitarray f) h1 h2 (nat (hash_count f))")
     (auto simp: add_def add_hash_vals_def split: option.splits)

lemma add_fields:
  "filter_size (snd (add H f x)) = filter_size f \<and>
   hash_count (snd (add H f x)) = hash_count f \<and>
   case_sensitive (snd (add H f x)) = case_sensitive f \<and>
   length (bloom_bitarray (snd (add H f x))) = length (bloom_bitarray f)"
proof (cases "get_hash H (PyStr (py_str x)) (case_sensitive f)")
  case (Inl e)
  then show ?thesis by (simp add: add_hash_fails)
next
  case (Inr p)
  then show ?thesis by (cases p) (simp add: add_hash_ok add_loop_length)
qed

lemma add_mono:
  assumes "bit_set (bloom_bitarray f) i"
  shows "bit_set (bloom_bitarray (snd (add H f x))) i"
proof (cases "get_hash H (PyStr (py_str x)) (case_sensitive f)")
  case (Inl e)
  then show ?thesis using assms by (simp add: add_hash_fails)
next
  case (Inr p)
  then show ?thesis using assms by (cases p) (simp add: add_hash_ok add_loop_mono)
qed

lemma add_raises: "fst (add H f x) = Some e \<Longrightarrow> e = SystemExit"
proof (cases "get_hash H (PyStr (py_str x)) (case_sensitive f)")
  case (Inl e')
  then show "fst (add H f x) = Some e \<Longrightarrow> e = SystemExit" by (simp add: add_hash_fails)
next
  case (Inr p)
  then show "fst (add H f x) = Some e \<Longrightarrow> e = SystemExit"
    by (cases p) (simp add: add_hash_ok split: if_splits)
qed

lemma wf_filter_add: "wf_filter f \<Longrightarrow> wf_filter (snd (add H f x))"
  using add_fields [of H f x] by (simp add: wf_filter_def)


lemma bulk_add_Cons:
  "bulk_add H f (x # xs) =
     (if fst (add H f x) = None then bulk_add H (snd (add H f x)) xs
      else (Some SystemExit, snd (add H f x)))"
  by (cases "add H f x") (auto split: option.splits)

lemma bulk_add_fields:
  "filter_size (snd (bulk_add H f xs)) = filter_size f \<and>
   hash_count (snd (bulk_add H f xs)) = hash_count f \<and>
   case_sensitive (snd (bulk_add H f xs)) = case_sensitive f \<and>
   length (bloom_bitarray (snd (bulk_add H f xs))) = length (bloom_bitarray f)"
proof (induction xs arbitrary: f)
  case Nil
  then show ?case by simp
next
  case (Cons x xs)
  show ?case
    using Cons.IH [of "snd (add H f x)"] add_fields [of H f x]
    by (simp add: bulk_add_Cons del: bulk_add.simps)
qed

lemma bulk_add_mono:
  "bit_set (bloom_bitarray f) i \<Longrightarrow> bit_set (bloom_bitarray (snd (bulk_add H f xs))) i"
proof (induction xs arbitrary: f)
  case Nil
  then show ?case by simp
next
  case (Cons x xs)
  have "bit_set (bloom_bitarray (snd (add H f x))) i"
    using Cons.prems by (rule add_mono)
  then show ?case
    using Cons.IH [of "snd (add H f x)"]
    by (simp add: bulk_add_Cons del: bulk_add.simps)
qed

lemma wf_filter_bulk_add: "wf_filter f \<Longrightarrow> wf_filter (snd (bulk_add H f xs))"
  using bulk_add_fields [of H f xs] by (simp add: wf_filter_def)

lemma contain_state: "snd (contain H f x) = f"
  by (auto simp: contain_def contain_hash_vals_def split: sum.splits prod.splits)

lemma contain_wf:
  assumes "wf_filter f" "get_hash H x (case_sensitive f) = Inr (h1, h2)"
  shows "contain H f x =
     (Inr (\<forall>i<nat (hash_count f). bit_set (bloom_bitarray f) (probe (filter_size f) h1 h2 i)), f)"
proof (cases "0 < filter_size f")
  case True
  then show ?thesis
    using assms by (simp add: contain_def contain_hash_vals_def wf_filter_def contain_loop_char)
next
  case False
  then have "nat (hash_count f) = 0" using assms by (auto simp: wf_filter_def)
  then show ?thesis using assms by (simp add: contain_def contain_hash_vals_def)
qed

lemma no_false_negative_str:
  assumes wf: "wf_filter f"
    and a: "add H f (PyStr s) = (None, f1)"
    and b: "bulk_add H f1 ys = (None, f2)"
  shows "fst (contain H f2 (PyStr s)) = Inr True"
proof -
  obtain h1 h2 where h: "get_hash H (PyStr s) (case_sensitive f) = Inr (h1, h2)"
    using a by (cases "get_hash H (PyStr s) (case_sensitive f)") (auto simp: add_hash_fails)
  let ?k = "nat (hash_count f)"
  let ?r = "add_loop (filter_size f) (bloom_bitarray f) h1 h2 ?k"
  have f1: "f1 = snd (add H f (PyStr s))" and f2: "f2 = snd (bulk_add H f1 ys)"
    using a b by simp_all
  have bits1: "bloom_bitarray f1 = snd ?r"
    using a h by (simp add: add_hash_ok split: if_splits) auto
  have same: "filter_size f2 = filter_size f" "hash_count f2 = hash_count f"
    "case_sensitive f2 = case_sensitive f"
    using add_fields [of H f "PyStr s"] bulk_add_fields [of H f1 ys] by (simp_all add: f1 f2)
  have wf2: "wf_filter f2" using wf by (simp add: f1 f2 wf_filter_add wf_filter_bulk_add)
  have "bit_set (bloom_bitarray f2) (probe (filter_size f) h1 h2 i)" if "i < ?k" for i
  proof -
    have pos: "0 < filter_size f" using wf that by (auto simp: wf_filter_def)
    then have "bit_set (snd ?r) (probe (filter_size f) h1 h2 i)"
      using wf that by (intro add_loop_sets) (simp_all add: wf_filter_def)
    then show ?thesis unfolding f2 by (intro bulk_add_mono) (simp add: bits1)
  qed
  then show ?thesis
    using contain_wf [OF wf2, of H "PyStr s" h1 h2] h by (simp add: same)
qed

lemma add_loop_idem:
  "fst (add_loop s bits c h k) = None \<Longrightarrow>
   add_loop s (snd (add_loop s bits c h k)) c h k = (None, snd (add_loop s bits c h k))"
proof (induction k arbitrary: bits c)
  case 0
  then show ?case by simp
next
  case (Suc k)
  from Suc.prems obtain pos where pos: "py_mod c s = Inr pos"
    by (cases "py_mod c s") auto
  from Suc.prems pos obtain j where j: "py_index (length bits) pos = Inr j"
    by (cases "py_index (length bits) pos") (auto simp: bitarray_setitem_def)
  let ?b = "bits[j := True]"
  let ?R = "snd (add_loop s ?b (c + h) h k)"
  have step: "add_loop s bits c h (Suc k) = add_loop s ?b (c + h) h k"
    using pos j by (simp add: bitarray_setitem_def)
  have ok: "fst (add_loop s ?b (c + h) h k) = None" using Suc.prems step by simp
  have jl: "j < length bits" using j by (rule py_index_bound)
  then have "bit_set ?b j" by (simp add: bit_set_def)
  then have "bit_set ?R j" by (rule add_loop_mono)
  then have same: "?R[j := True] = ?R" by (simp add: bit_set_def list_update_same_conv)
  have len: "length ?R = length bits" by (simp add: add_loop_length)
  have "add_loop s ?R c h (Suc k) = add_loop s ?R (c + h) h k"
    using pos j by (simp add: bitarray_setitem_def len same)
  also have "\<dots> = (None, ?R)" using ok by (rule Suc.IH)
  finally show ?case by (simp only: step)
qed

lemma contain_counter: "fst (contain H (f\<lparr>counter := n\<rparr>) y) = fst (contain H f y)"
  by (auto simp: contain_def contain_hash_vals_def split: sum.splits prod.splits)

lemma contain_loop_short_circuit:
  "fsize \<noteq> 0 \<Longrightarrow> j < k \<Longrightarrow>
   (\<forall>i<j. bitarray_getitem bits ((c + int i * h) mod fsize) = Inr True) \<Longrightarrow>
   bitarray_getitem bits ((c + int j * h) mod fsize) = Inr False \<Longrightarrow>
   contain_loop fsize bits c h k = Inr False"
proof (induction j arbitrary: c k)
  case 0
  then obtain k' where k: "k = Suc k'" by (cases k) auto
  show ?case using 0 by (simp add: k py_mod_def)
next
  case (Suc j)
  then obtain k' where k: "k = Suc k'" by (cases k) auto
  have first: "bitarray_getitem bits (c mod fsize) = Inr True"
    using Suc.prems(3) [rule_format, of 0] by simp
  have "contain_loop fsize bits (c + h) h k' = Inr False"
  proof (rule Suc.IH)
    show "fsize \<noteq> 0" by fact
    show "j < k'" using Suc.prems k by simp
    show "\<forall>i<j. bitarray_getitem bits ((c + h + int i * h) mod fsize) = Inr True"
      using Suc.prems(3) by (auto simp: algebra_simps dest: spec [where x = "Suc i" for i])
    show "bitarray_getitem bits ((c + h + int j * h) mod fsize) = Inr False"
      using Suc.prems(4) by (simp add: algebra_simps)
  qed
  then show ?case using first Suc.prems(1) by (simp add: k py_mod_def)
qed

lemma insert_each_raised:
  "foldl (\<lambda>(r, f) it. if r = None then add H f it else (r, f)) (Some e, f) xs = (Some e, f)"
  by (induction xs) simp_all

lemma insert_each_Cons:
  "insert_each H f (x # xs) =
     (if fst (add H f x) = None then insert_each H (snd (add H f x)) xs else add H f x)"
proof (cases "add H f x")
  case (Pair r f')
  then show ?thesis
    by (cases r) (simp_all add: insert_each_def insert_each_raised)
qed

lemma bulk_add_insert_each: "bulk_add H f xs = insert_each H f xs"
proof (induction xs arbitrary: f)
  case Nil
  then show ?case by (simp add: insert_each_def)
next
  case (Cons x xs)
  show ?case
  proof (cases "fst (add H f x)")
    case None
    then show ?thesis
      by (simp add: bulk_add_Cons insert_each_Cons Cons.IH del: bulk_add.simps)
  next
    case (Some e)
    then have "e = SystemExit" by (rule add_raises)
    then have "add H f x = (Some SystemExit, snd (add H f x))"
      using Some by (simp add: prod_eq_iff)
    then show ?thesis
      using Some by (simp add: bulk_add_Cons insert_each_Cons del: bulk_add.simps)
  qed
qed

lemma bulk_add_append:
  "bulk_add H f xs = (None, f1) \<Longrightarrow> bulk_add H f (xs @ ys) = bulk_add H f1 ys"
proof (induction xs arbitrary: f)
  case Nil
  then show ?case by simp
next
  case (Cons x xs)
  then show ?case
    by (simp add: bulk_add_Cons del: bulk_add.simps split: if_splits)
qed

lemma flag_true_folds:
  "case_sensitive f \<Longrightarrow> map lower_char s = map lower_char t \<Longrightarrow>
   add_hash_vals H f (PyStr s) = add_hash_vals H f (PyStr t) \<and>
   contain_hash_vals H f (PyStr s) = contain_hash_vals H f (PyStr t)"
  by (simp add: add_hash_vals_def contain_hash_vals_def get_hash_def hash_input_def)

section \<open>Capacity planning and construction\<close>







section \<open>Insertion and query\<close>

text \<open>
  C9. In a filter of size at least 1 whose bit array has \<open>filter_size\<close> bits, for every pair
  of signed 64-bit hash values, every position \<open>(h1 + i * h2) % filter_size\<close> lies in
  \<open>[0, filter_size)\<close> and is a valid index of the bit array, and neither loop raises: the
  handlers of \<open>add\<close> and \<open>contain\<close> are not reached.
\<close>

theorem index_safety:
  fixes h1 h2 :: "64 word"
  assumes "1 \<le> filter_size f" and "length (bloom_bitarray f) = nat (filter_size f)"
  shows "(\<forall>i. 0 \<le> (sint h1 + int i * sint h2) mod filter_size f \<and>
              (sint h1 + int i * sint h2) mod filter_size f < filter_size f \<and>
              py_index (length (bloom_bitarray f)) ((sint h1 + int i * sint h2) mod filter_size f)
                = Inr (probe (filter_size f) (sint h1) (sint h2) i)) \<and>
         fst (add_loop (filter_size f) (bloom_bitarray f) (sint h1) (sint h2) k) = None \<and>
         (\<exists>b. contain_loop (filter_size f) (bloom_bitarray f) (sint h1) (sint h2) k = Inr b)"
proof -
  have pos: "0 < filter_size f" using assms by simp
  have "py_index (length (bloom_bitarray f)) (c mod filter_size f) = Inr (nat (c mod filter_size f))"
    for c
    using pos assms by (simp add: py_index_in_range)
  then have a: "\<forall>i. 0 \<le> (sint h1 + int i * sint h2) mod filter_size f \<and>
              (sint h1 + int i * sint h2) mod filter_size f < filter_size f \<and>
              py_index (length (bloom_bitarray f)) ((sint h1 + int i * sint h2) mod filter_size f)
                = Inr (probe (filter_size f) (sint h1) (sint h2) i)"
    using pos by (simp add: probe_def)
  have b: "fst (add_loop (filter_size f) (bloom_bitarray f) (sint h1) (sint h2) k) = None"
    using pos assms by (simp add: add_loop_ok)
  have c: "\<exists>b. contain_loop (filter_size f) (bloom_bitarray f) (sint h1) (sint h2) k = Inr b"
    using pos assms by (simp add: contain_loop_char)
  show ?thesis using a b c by blast
qed

text \<open>C9 on the 5-bit filter, with a negative \<open>h1\<close> and the least 64-bit value as \<open>h2\<close>.\<close>

theorem index_safety_witness:
  "1 \<le> filter_size (example_filter False) \<and>
   length (bloom_bitarray (example_filter False)) = nat (filter_size (example_filter False)) \<and>
   fst (add_loop (filter_size (example_filter False)) (bloom_bitarray (example_filter False))
          (sint (- 7 :: 64 word)) (sint (2 ^ 63 :: 64 word)) 3) = None \<and>
   (\<exists>b. contain_loop (filter_size (example_filter False)) (bloom_bitarray (example_filter False))
          (sint (- 7 :: 64 word)) (sint (2 ^ 63 :: 64 word)) 3 = Inr b)"
proof -
  have h1: "1 \<le> filter_size (example_filter False)"
    by (simp add: example_filter_def)
  have h2: "length (bloom_bitarray (example_filter False)) = nat (filter_size (example_filter False))"
    by (simp add: example_filter_def)
  show ?thesis
    using index_safety [OF h1 h2, of "- 7" "2 ^ 63" 3] h1 h2 by blast
qed

text \<open>
  C6. After construction every bit of the array is 0, whatever the fresh storage held:
  \<open>setall(0)\<close> has overwritten it. A bit that is 1 is still 1 after \<open>add\<close>, after
  \<open>bulk_add\<close> and after \<open>contain\<close>, whatever they are given and whether or not they raise.
\<close>

theorem monotonicity:
  "(BloomFilter_init P n p c = Inr f0 \<longrightarrow>
      bloom_bitarray f0 = replicate (nat (filter_size f0)) False) \<and>
   (bit_set (bloom_bitarray f) i \<longrightarrow>
      bit_set (bloom_bitarray (snd (add H f x))) i \<and>
      bit_set (bloom_bitarray (snd (bulk_add H f xs))) i \<and>
      bit_set (bloom_bitarray (snd (contain H f y))) i)"
proof -
  have "bloom_bitarray f0 = replicate (nat (filter_size f0)) False"
    if "BloomFilter_init P n p c = Inr f0"
    using that
    by (auto simp: BloomFilter_init_def bitarray_new_def setall_def split: sum.splits if_splits)
  then show ?thesis
    by (simp add: add_mono bulk_add_mono contain_state)
qed

text \<open>
  C6 on \<open>BloomFilter(1, 0.125)\<close>, constructed in storage that was all ones, and at bit 2
  after \<open>"Foo"\<close> has been added.
\<close>

theorem monotonicity_witness:
  "BloomFilter_init exact_platform 1 (1 / 8) False = Inr (example_filter False) \<and>
   bitarray_new exact_platform 5 = Inr [True, True, True, True, True] \<and>
   bloom_bitarray (example_filter False) =
     replicate (nat (filter_size (example_filter False))) False \<and>
   bit_set (bloom_bitarray (snd (add stub_hash64 (example_filter False) (PyStr ''Foo'')))) 2 \<and>
   bit_set (bloom_bitarray (snd (add stub_hash64
      (snd (add stub_hash64 (example_filter False) (PyStr ''Foo''))) (PyStr ''bar'')))) 2 \<and>
   bit_set (bloom_bitarray (snd (bulk_add stub_hash64
      (snd (add stub_hash64 (example_filter False) (PyStr ''Foo''))) [PyStr ''bar'', PyInt 7]))) 2 \<and>
   bit_set (bloom_bitarray (snd (contain stub_hash64
      (snd (add stub_hash64 (example_filter False) (PyStr ''Foo''))) (PyStr ''bar'')))) 2"
proof -
  have i: "BloomFilter_init exact_platform 1 (1 / 8) False = Inr (example_filter False)"
    by (rule example_init [OF ieee_exact]) (simp add: exact_max_bits)
  have r: "replicate (nat 5) True = [True, True, True, True, True]"
    by code_simp
  have "map (fresh_bit exact_platform) [0..<nat 5] = replicate (nat 5) True"
    by (simp add: exact_platform_def map_replicate_const)
  then have "map (fresh_bit exact_platform) [0..<nat 5] = [True, True, True, True, True]"
    by (simp only: r)
  then have j: "bitarray_new exact_platform 5 = Inr [True, True, True, True, True]"
    by (simp add: bitarray_new_def exact_max_bits)
  have b: "bit_set (bloom_bitarray (snd (add stub_hash64 (example_filter False) (PyStr ''Foo'')))) 2"
    by code_simp
  show ?thesis
    using i j b
      monotonicity [where P = exact_platform and n = 1 and p = "1 / 8" and c = False
        and ?f0.0 = "example_filter False"
        and f = "snd (add stub_hash64 (example_filter False) (PyStr ''Foo''))" and i = 2
        and H = stub_hash64 and x = "PyStr ''bar''" and xs = "[PyStr ''bar'', PyInt 7]"
        and y = "PyStr ''bar''"]
    by blast
qed

text \<open>
  C7. When \<open>add(x)\<close> has returned, a second \<open>add(x)\<close> returns too and changes nothing but the
  counter: the bit array is the same, every \<open>contain\<close> answers the same, and the counter has
  gone up by one with each call.
\<close>

theorem add_idempotent:
  assumes "add H f x = (None, f1)"
  shows "add H f1 x = (None, f1\<lparr>counter := counter f1 + 1\<rparr>) \<and>
         bloom_bitarray (snd (add H f1 x)) = bloom_bitarray f1 \<and>
         counter f1 = counter f + 1 \<and>
         counter (snd (add H f1 x)) = counter f + 2 \<and>
         (\<forall>y. fst (contain H (snd (add H f1 x)) y) = fst (contain H f1 y))"
proof -
  obtain h1 h2 where h: "get_hash H (PyStr (py_str x)) (case_sensitive f) = Inr (h1, h2)"
    using assms by (cases "get_hash H (PyStr (py_str x)) (case_sensitive f)")
      (auto simp: add_hash_fails)
  let ?r = "add_loop (filter_size f) (bloom_bitarray f) h1 h2 (nat (hash_count f))"
  have ok: "fst ?r = None"
    using assms h by (simp add: add_hash_ok split: if_splits)
  have f1: "f1 = f\<lparr>bloom_bitarray := snd ?r, counter := counter f + 1\<rparr>"
    using assms h ok by (simp add: add_hash_ok)
  have h': "get_hash H (PyStr (py_str x)) (case_sensitive f1) = Inr (h1, h2)"
    using h by (simp add: f1)
  have idem: "add_loop (filter_size f1) (bloom_bitarray f1) h1 h2 (nat (hash_count f1)) =
      (None, bloom_bitarray f1)"
    using add_loop_idem [OF ok] by (simp add: f1)
  have second: "add H f1 x = (None, f1\<lparr>counter := counter f1 + 1\<rparr>)"
    using h' idem by (simp add: add_hash_ok)
  show ?thesis
    unfolding second by (simp add: contain_counter) (simp add: f1)
qed

text \<open>C7 for \<open>"Foo"\<close> on the 5-bit filter.\<close>

theorem add_idempotent_witness:
  "add stub_hash64 (example_filter False) (PyStr ''Foo'') =
     (None, (example_filter False)
        \<lparr>bloom_bitarray := [True, True, True, False, False], counter := 1\<rparr>) \<and>
   add stub_hash64
     ((example_filter False)\<lparr>bloom_bitarray := [True, True, True, False, False], counter := 1\<rparr>)
     (PyStr ''Foo'') =
     (None, (example_filter False)
        \<lparr>bloom_bitarray := [True, True, True, False, False], counter := 2\<rparr>)"
proof -
  have h: "add stub_hash64 (example_filter False) (PyStr ''Foo'') =
     (None, (example_filter False)
        \<lparr>bloom_bitarray := [True, True, True, False, False], counter := 1\<rparr>)"
    by code_simp
  show ?thesis
    using add_idempotent [OF h] h by simp
qed

text \<open>
  C5. In a filter that satisfies the invariant, when the hash values \<open>(h1, h2)\<close> have been
  derived, \<open>contain\<close> returns \<open>True\<close> if and only if the bit at \<open>(h1 + i * h2) % filter_size\<close>
  is 1 for every \<open>i < hash_count\<close>. The loop returns \<open>False\<close> at the first round \<open>j\<close> whose
  bit is 0, whatever the later positions are, also if reading them would raise. The filter is
  left as it was.
\<close>

theorem contain_spec:
  "(wf_filter f \<and> contain_hash_vals H f x = Inr (h1, h2) \<longrightarrow>
      fst (contain H f x) =
        Inr (\<forall>i<nat (hash_count f).
               bit_set (bloom_bitarray f) (probe (filter_size f) h1 h2 i))) \<and>
   (fsize \<noteq> 0 \<and> j < k \<and>
    (\<forall>i<j. bitarray_getitem bits ((c + int i * h) mod fsize) = Inr True) \<and>
    bitarray_getitem bits ((c + int j * h) mod fsize) = Inr False \<longrightarrow>
      contain_loop fsize bits c h k = Inr False) \<and>
   snd (contain H f x) = f"
  using contain_wf [of f H x h1 h2] contain_loop_short_circuit [of fsize j k bits c h]
  by (simp add: contain_state contain_hash_vals_def)

text \<open>
  C5 for the query \<open>"foo"\<close> after \<open>"Foo"\<close> was added, and for a loop of three rounds over a
  bit array of two bits: the 0 at round 1 ends it before the third position, which is out of
  range.
\<close>

theorem contain_spec_witness:
  "wf_filter (snd (add stub_hash64 (example_filter False) (PyStr ''Foo''))) \<and>
   contain_hash_vals stub_hash64 (snd (add stub_hash64 (example_filter False) (PyStr ''Foo'')))
     (PyStr ''foo'') = Inr (324, 4) \<and>
   fst (contain stub_hash64 (snd (add stub_hash64 (example_filter False) (PyStr ''Foo'')))
     (PyStr ''foo'')) = Inr False \<and>
   (5::int) \<noteq> 0 \<and> (1::nat) < 3 \<and>
   bitarray_getitem [True, False] ((0 + int 0 * 1) mod 5) = Inr True \<and>
   bitarray_getitem [True, False] ((0 + int 1 * 1) mod 5) = Inr False \<and>
   contain_loop 5 [True, False] 0 1 3 = Inr False"
proof -
  let ?f = "snd (add stub_hash64 (example_filter False) (PyStr ''Foo''))"
  have w: "wf_filter ?f" by (intro wf_filter_add wf_example)
  have g: "contain_hash_vals stub_hash64 ?f (PyStr ''foo'') = Inr (324, 4)" by code_simp
  have a0: "bitarray_getitem [True, False] ((0 + int 0 * 1) mod 5) = Inr True"
    by (simp add: bitarray_getitem_def py_index_def)
  then have a: "\<forall>i<1. bitarray_getitem [True, False] ((0 + int i * 1) mod 5) = Inr True"
    by simp
  have b: "bitarray_getitem [True, False] ((0 + int 1 * 1) mod 5) = Inr False"
    by (simp add: bitarray_getitem_def py_index_def)
  have r0: "0 < nat (hash_count ?f)" by code_simp
  have r1: "\<not> bit_set (bloom_bitarray ?f) (probe (filter_size ?f) 324 4 0)" by code_simp
  note t = contain_spec [where f = "?f" and H = stub_hash64 and x = "PyStr ''foo''"
      and ?h1.0 = 324 and ?h2.0 = 4 and fsize = 5 and j = 1 and k = 3
      and bits = "[True, False]" and c = 0 and h = 1]
  from t w g have "fst (contain stub_hash64 ?f (PyStr ''foo'')) =
      Inr (\<forall>i<nat (hash_count ?f). bit_set (bloom_bitarray ?f) (probe (filter_size ?f) 324 4 i))"
    by blast
  moreover have "\<not> (\<forall>i<nat (hash_count ?f).
      bit_set (bloom_bitarray ?f) (probe (filter_size ?f) 324 4 i))"
    using r0 r1 by blast
  ultimately have q: "fst (contain stub_hash64 ?f (PyStr ''foo'')) = Inr False" by simp
  from t a b have l: "contain_loop 5 [True, False] 0 1 3 = Inr False" by simp
  show ?thesis using w g q a0 b l by simp
qed

text \<open>
  C8. \<open>bulk_add(items)\<close> leaves the filter, bit array and counter, as calling \<open>add\<close> once
  per item in sequence order does. When an \<open>add\<close> of the batch raises, the batch ends there
  with \<open>SystemExit\<close>; the filter is as that \<open>add\<close> left it, every bit set by the earlier items
  being still set.
\<close>

theorem bulk_add_equiv:
  "bulk_add H f xs = insert_each H f xs \<and>
   (bulk_add H f xs = (None, f1) \<and> fst (add H f1 y) = Some e \<longrightarrow>
      bulk_add H f (xs @ y # zs) = (Some SystemExit, snd (add H f1 y)) \<and>
      (\<forall>i. bit_set (bloom_bitarray f1) i \<longrightarrow>
           bit_set (bloom_bitarray (snd (bulk_add H f (xs @ y # zs)))) i))"
proof -
  have "bulk_add H f (xs @ y # zs) = (Some SystemExit, snd (add H f1 y))"
    if "bulk_add H f xs = (None, f1)" "fst (add H f1 y) = Some e"
    using that by (simp add: bulk_add_append bulk_add_Cons del: bulk_add.simps)
  then show ?thesis
    by (simp add: bulk_add_insert_each [symmetric] add_mono)
qed

text \<open>
  C8 for the batch \<open>"Foo"\<close>, a string that the hash primitive rejects, \<open>"bar"\<close>: the bits of
  \<open>"Foo"\<close> stay, \<open>"bar"\<close> is never added.
\<close>

theorem bulk_add_equiv_witness:
  "bulk_add ascii_hash64 (example_filter False) [PyStr ''Foo''] =
     (None, (example_filter False)
        \<lparr>bloom_bitarray := [True, True, True, False, False], counter := 1\<rparr>) \<and>
   fst (add ascii_hash64
          ((example_filter False)\<lparr>bloom_bitarray := [True, True, True, False, False], counter := 1\<rparr>)
          (PyStr [CHR 0xE9])) = Some SystemExit \<and>
   bulk_add ascii_hash64 (example_filter False) ([PyStr ''Foo''] @ PyStr [CHR 0xE9] # [PyStr ''bar'']) =
     (Some SystemExit, (example_filter False)
        \<lparr>bloom_bitarray := [True, True, True, False, False], counter := 1\<rparr>) \<and>
   bulk_add ascii_hash64 (example_filter False) [PyStr ''Foo''] =
     insert_each ascii_hash64 (example_filter False) [PyStr ''Foo'']"
proof -
  let ?f1 = "(example_filter False)
        \<lparr>bloom_bitarray := [True, True, True, False, False], counter := 1\<rparr>"
  have a: "bulk_add ascii_hash64 (example_filter False) [PyStr ''Foo''] = (None, ?f1)"
    by code_simp
  have b: "fst (add ascii_hash64 ?f1 (PyStr [CHR 0xE9])) = Some SystemExit"
    by code_simp
  have c: "snd (add ascii_hash64 ?f1 (PyStr [CHR 0xE9])) = ?f1"
    by code_simp
  note t = bulk_add_equiv [where H = ascii_hash64 and f = "example_filter False"
        and xs = "[PyStr ''Foo'']" and ?f1.0 = "?f1" and y = "PyStr [CHR 0xE9]"
        and e = SystemExit and zs = "[PyStr ''bar'']"]
  from t have eq: "bulk_add ascii_hash64 (example_filter False) [PyStr ''Foo''] =
     insert_each ascii_hash64 (example_filter False) [PyStr ''Foo'']"
    by (rule conjunct1)
  from t a b have "bulk_add ascii_hash64 (example_filter False)
       ([PyStr ''Foo''] @ PyStr [CHR 0xE9] # [PyStr ''bar'']) =
     (Some SystemExit, snd (add ascii_hash64 ?f1 (PyStr [CHR 0xE9])))"
    by blast
  then have d: "bulk_add ascii_hash64 (example_filter False)
       ([PyStr ''Foo''] @ PyStr [CHR 0xE9] # [PyStr ''bar'']) = (Some SystemExit, ?f1)"
    by (simp only: c)
  show ?thesis using a b d eq by blast
qed



text \<open>
  C1 at a failing input. On \<open>BloomFilter(1, 0.125)\<close>, with either value of the flag, \<open>add(5)\<close>
  returns, having set the bits of the string \<open>"5"\<close>; \<open>contain("5")\<close> then returns \<open>True\<close>, but
  \<open>contain(5)\<close> hands the integer to \<open>get_hash\<close>, which raises, and the process exits: the
  inserted item is not reported present.
\<close>

theorem int_item_not_found:
  "add stub_hash64 (example_filter False) (PyInt 5) =
     (None, (example_filter False)
        \<lparr>bloom_bitarray := [True, False, True, True, False], counter := 1\<rparr>) \<and>
   fst (contain stub_hash64 (snd (add stub_hash64 (example_filter False) (PyInt 5))) (PyStr ''5''))
     = Inr True \<and>
   fst (contain stub_hash64 (snd (add stub_hash64 (example_filter False) (PyInt 5))) (PyInt 5))
     = Inl SystemExit \<and>
   fst (add stub_hash64 (example_filter True) (PyInt 5)) = None \<and>
   fst (contain stub_hash64 (snd (add stub_hash64 (example_filter True) (PyInt 5))) (PyInt 5))
     = Inl SystemExit"
  by code_simp

text \<open>
  C2 at a failing input. With the flag \<open>False\<close> the item reaches the hash primitive as given:
  after \<open>add("Foo")\<close>, \<open>contain("foo")\<close> is \<open>False\<close>, and after \<open>add("foo")\<close>, \<open>contain("Foo")\<close>
  is \<open>False\<close>. With the flag \<open>True\<close> the item is lower-cased first, and both queries are
  \<open>True\<close>.
\<close>

theorem case_flag_inverted:
  "hash_input (PyStr ''Foo'') False = Inr (PyStr ''Foo'') \<and>
   fst (contain stub_hash64 (snd (add stub_hash64 (example_filter False) (PyStr ''Foo'')))
     (PyStr ''foo'')) = Inr False \<and>
   fst (contain stub_hash64 (snd (add stub_hash64 (example_filter False) (PyStr ''foo'')))
     (PyStr ''Foo'')) = Inr False \<and>
   hash_input (PyStr ''Foo'') True = Inr (PyStr ''foo'') \<and>
   fst (contain stub_hash64 (snd (add stub_hash64 (example_filter True) (PyStr ''Foo'')))
     (PyStr ''foo'')) = Inr True \<and>
   fst (contain stub_hash64 (snd (add stub_hash64 (example_filter True) (PyStr ''foo'')))
     (PyStr ''Foo'')) = Inr True"
  by code_simp

end
